theory Spec2Isabelle
  imports Complex_Main "HOL-Library.Sublist" "HOL-Library.Multiset" "HOL-Library.Monad_Syntax"
    "HOL-Library.Log_Nat"
begin

section \<open>Data model of \<^verbatim>\<open>mgaps.cc\<close>\<close>

text \<open>
  \<^verbatim>\<open>struct Match_t\<close>: the three coordinates of a match, the transient fields of the
  chaining pass, the cluster id and the two one-bit flags. The \<^verbatim>\<open>long int\<close> fields are
  64-bit on the LP64 platforms the program is built for; they are modelled as
  mathematical integers (signed overflow of \<^verbatim>\<open>long\<close> is undefined behaviour and out of
  reach of real coordinates). The places where the code stores a \<^verbatim>\<open>long\<close> expression
  in a 32-bit \<^verbatim>\<open>int\<close> local are modelled with the wrap-around written out, see
  \<open>long_to_int\<close>.
\<close>

record Match_t =
  Start1 :: int
  Start2 :: int
  Len :: int
  Simple_Score :: int
  Simple_From :: int
  Simple_Adj :: int
  cluster_id :: int
  Good :: bool
  Tentative :: bool

text \<open>
  The constructor \<^verbatim>\<open>Match_t(S1, S2, L)\<close> sets the coordinates and clears both flags.
  It leaves the other fields uninitialised; every one of them is written before it is
  read (the scores at the start of each chaining pass, the cluster id before the second
  sort), so the model starts them at 0.
\<close>

definition mk_Match :: "int \<Rightarrow> int \<Rightarrow> int \<Rightarrow> Match_t" where
  "mk_Match S1 S2 L =
     \<lparr>Start1 = S1, Start2 = S2, Len = L, Simple_Score = 0, Simple_From = 0,
      Simple_Adj = 0, cluster_id = 0, Good = False, Tentative = False\<rparr>"

text \<open>The coordinates of a match, which identify it across the phases.\<close>

definition coords :: "Match_t \<Rightarrow> int \<times> int \<times> int" where
  "coords m = (Start1 m, Start2 m, Len m)"

text \<open>Conversion of a \<^verbatim>\<open>long\<close> value to a 32-bit \<^verbatim>\<open>int\<close> (two's complement wrap).\<close>

definition long_to_int :: "int \<Rightarrow> int" where
  "long_to_int x = (x + 2147483648) mod 4294967296 - 2147483648"

text \<open>C++ integer division by two truncates towards zero.\<close>

definition half :: "int \<Rightarrow> int" where
  "half x = (if x < 0 then - ((- x) div 2) else x div 2)"

section \<open>The comparators and the sort\<close>

definition By_Start2 :: "Match_t \<Rightarrow> Match_t \<Rightarrow> int" where
  "By_Start2 x y =
     (if Start2 x < Start2 y then - 1
      else if Start2 x > Start2 y then 1
      else if Start1 x < Start1 y then - 1
      else if Start1 x > Start1 y then 1
      else 0)"

definition By_Cluster :: "Match_t \<Rightarrow> Match_t \<Rightarrow> int" where
  "By_Cluster x y =
     (if cluster_id x < cluster_id y then - 1
      else if cluster_id x > cluster_id y then 1
      else if Start2 x < Start2 y then - 1
      else if Start2 x > Start2 y then 1
      else if Start1 x < Start1 y then - 1
      else if Start1 x > Start1 y then 1
      else 0)"

text \<open>
  \<^verbatim>\<open>qsort\<close> with a comparator. The C library leaves the order of elements that compare
  equal unspecified; the model is an insertion sort that keeps them in input order.
\<close>

fun qsort_insert :: "('a \<Rightarrow> 'a \<Rightarrow> int) \<Rightarrow> 'a \<Rightarrow> 'a list \<Rightarrow> 'a list" where
  "qsort_insert cmp x [] = [x]"
| "qsort_insert cmp x (y # ys) =
     (if cmp x y < 0 then x # y # ys else y # qsort_insert cmp x ys)"

definition qsort :: "('a \<Rightarrow> 'a \<Rightarrow> int) \<Rightarrow> 'a list \<Rightarrow> 'a list" where
  "qsort cmp xs = foldl (\<lambda>acc x. qsort_insert cmp x acc) [] xs"

section \<open>\<^verbatim>\<open>Filter_Matches\<close>\<close>

text \<open>
  One iteration of the inner loop (lines 192--276) for the outer match \<open>i\<close> and the
  candidate \<open>j\<close>. The result is the array, the running \<^verbatim>\<open>i_end\<close> and whether the
  iteration left the loop through \<^verbatim>\<open>break\<close>. The locals \<^verbatim>\<open>i_diag\<close>, \<^verbatim>\<open>i_end\<close>,
  \<^verbatim>\<open>j_diag\<close>, \<^verbatim>\<open>j_extent\<close> and \<^verbatim>\<open>olap\<close> are 32-bit.
\<close>

definition set_Good :: "Match_t list \<Rightarrow> nat \<Rightarrow> bool \<Rightarrow> Match_t list" where
  "set_Good A i b = A[i := (A ! i)\<lparr>Good := b\<rparr>]"

definition set_Tentative :: "Match_t list \<Rightarrow> nat \<Rightarrow> bool \<Rightarrow> Match_t list" where
  "set_Tentative A i b = A[i := (A ! i)\<lparr>Tentative := b\<rparr>]"

definition set_Len :: "Match_t list \<Rightarrow> nat \<Rightarrow> int \<Rightarrow> Match_t list" where
  "set_Len A i l = A[i := (A ! i)\<lparr>Len := l\<rparr>]"

text \<open>
  The resolution of two matches with a common start (lines 216--243 and 247--274, the
  same text for either axis), given the overlap \<open>olap\<close>.
\<close>

definition resolve :: "Match_t list \<Rightarrow> nat \<Rightarrow> nat \<Rightarrow> int \<Rightarrow> Match_t list \<times> bool" where
  "resolve A i j olap =
     (if Len (A ! i) < Len (A ! j) then
        (if olap \<ge> half (Len (A ! i)) then (set_Good A i False, True) else (A, False))
      else if Len (A ! j) < Len (A ! i) then
        (if olap \<ge> half (Len (A ! j)) then (set_Good A j False, False) else (A, False))
      else
        (if olap \<ge> half (Len (A ! i)) then
           (let A1 = set_Tentative A j True in
            if Tentative (A1 ! i) then (set_Good A1 i False, True) else (A1, False))
         else (A, False)))"

definition Filter_step ::
  "Match_t list \<Rightarrow> nat \<Rightarrow> int \<Rightarrow> int \<Rightarrow> nat \<Rightarrow> Match_t list \<times> int \<times> bool" where
  "Filter_step A i i_diag i_end j =
     (if \<not> Good (A ! j) then (A, i_end, False)
      else
        let j_diag = long_to_int (Start2 (A ! j) - Start1 (A ! j)) in
        if i_diag = j_diag then
          (let j_extent = long_to_int (Len (A ! j) + Start2 (A ! j) - Start2 (A ! i)) in
           if j_extent > Len (A ! i)
           then (set_Good (set_Len A i j_extent) j False,
                 long_to_int (Start2 (A ! i) + j_extent), False)
           else (set_Good A j False, i_end, False))
        else if Start1 (A ! i) = Start1 (A ! j) then
          (let olap = long_to_int (Start2 (A ! i) + Len (A ! i) - Start2 (A ! j));
               (A1, brk) = resolve A i j olap
           in (A1, i_end, brk))
        else if Start2 (A ! i) = Start2 (A ! j) then
          (let olap = long_to_int (Start1 (A ! i) + Len (A ! i) - Start1 (A ! j));
               (A1, brk) = resolve A i j olap
           in (A1, i_end, brk))
        else (A, i_end, False))"

text \<open>
  The inner loop \<^verbatim>\<open>for (j = i + 1; j < N && A[j].Start2 <= i_end; j++)\<close>. Its first
  statement is \<^verbatim>\<open>assert (A[i].Start2 <= A[j].Start2)\<close>; a failed assertion aborts the
  program, which is the result \<open>None\<close>.
\<close>

function Filter_scan ::
  "nat \<Rightarrow> nat \<Rightarrow> int \<Rightarrow> Match_t list \<Rightarrow> int \<Rightarrow> nat \<Rightarrow> Match_t list option" where
  "Filter_scan N i i_diag A i_end j =
     (if j < N \<and> Start2 (A ! j) \<le> i_end then
        if \<not> Start2 (A ! i) \<le> Start2 (A ! j) then None
        else
          (case Filter_step A i i_diag i_end j of
             (A1, i_end1, brk) \<Rightarrow>
               if brk then Some A1 else Filter_scan N i i_diag A1 i_end1 (j + 1))
      else Some A)"
  by pat_completeness auto
termination
  by (relation "measure (\<lambda>(N, i, i_diag, A, i_end, j). N - j)") auto

declare Filter_scan.simps [simp del]

text \<open>The body of the outer loop (lines 183--276).\<close>

definition Filter_outer :: "nat \<Rightarrow> nat \<Rightarrow> Match_t list \<Rightarrow> Match_t list option" where
  "Filter_outer N i A =
     (if \<not> Good (A ! i) then Some A
      else Filter_scan N i (long_to_int (Start2 (A ! i) - Start1 (A ! i))) A
             (long_to_int (Start2 (A ! i) + Len (A ! i))) (i + 1))"

text \<open>
  \<^verbatim>\<open>Filter_Matches (A, N)\<close> with \<open>N = length A\<close>: mark every match good (lines 178--179),
  scan (lines 181--277), pack the good matches to the front (lines 279--286; the result
  is the packed prefix, its length the new \<^verbatim>\<open>N\<close>), and clear \<^verbatim>\<open>Good\<close> on the packed
  matches (lines 288--289). \<open>Filter_marked\<close> is the array after the scan.
\<close>

definition Filter_marked :: "Match_t list \<Rightarrow> Match_t list option" where
  "Filter_marked A =
     fold (\<lambda>i r. Option.bind r (Filter_outer (length A) i)) [0..<length A - 1]
       (Some (map (\<lambda>m. m\<lparr>Good := True\<rparr>) A))"

definition Filter_Matches :: "Match_t list \<Rightarrow> Match_t list option" where
  "Filter_Matches A =
     map_option (\<lambda>B. map (\<lambda>m. m\<lparr>Good := False\<rparr>) (filter Good B)) (Filter_marked A)"

section \<open>Double-precision arithmetic\<close>

text \<open>
  Line 449 multiplies the \<^verbatim>\<open>double\<close> \<^verbatim>\<open>Separation_Factor\<close> by the \<^verbatim>\<open>long\<close> separation and
  converts the product to \<^verbatim>\<open>int\<close>. A finite double is held as the rational it denotes.
  \<open>to_double\<close> rounds a rational to the nearest number with a 53-bit significand, ties
  to the even significand, which is what the conversion from \<^verbatim>\<open>long\<close>, the
  multiplication and \<^verbatim>\<open>strtod\<close> do. \<open>binade x\<close> is the exponent \<open>e\<close> with
  \<open>2^e \<le> x < 2^(e + 1)\<close>, for positive \<open>x\<close>.

  The exponent range of a double is not modelled. This does not change the value of
  \<open>double_to_int\<close> on a product of finite doubles: a product of magnitude below
  \<open>2^-1022\<close> is rounded to a magnitude of at most \<open>2^-1022\<close> either way and converts to
  0, and a product that overflows to infinity is, like every magnitude of \<open>2^31\<close> or
  more, outside the range of \<^verbatim>\<open>int\<close>.
\<close>

definition pow2 :: "int \<Rightarrow> rat" where
  "pow2 e = (if 0 \<le> e then 2 ^ nat e else 1 / 2 ^ nat (- e))"

definition binade :: "rat \<Rightarrow> int" where
  "binade x =
     (case quotient_of x of (p, q) \<Rightarrow>
        let e = bitlen p - bitlen q in if pow2 e \<le> x then e else e - 1)"

definition round_even :: "rat \<Rightarrow> int" where
  "round_even x =
     (let f = \<lfloor>x\<rfloor>; r = x - of_int f
      in if r < 1 / 2 then f else if 1 / 2 < r then f + 1 else if even f then f else f + 1)"

definition to_double :: "rat \<Rightarrow> rat" where
  "to_double x =
     (if x = 0 then 0
      else let q = pow2 (binade \<bar>x\<bar> - 52)
           in sgn x * of_int (round_even (\<bar>x\<bar> / q)) * q)"

text \<open>
  The conversion \<^verbatim>\<open>(int) x\<close> truncates towards zero. When the truncated value is not a
  32-bit \<^verbatim>\<open>int\<close> the conversion is undefined in C++; the x86-64 instruction
  \<^verbatim>\<open>cvttsd2si\<close> that performs it then gives \<^verbatim>\<open>INT_MIN\<close>, and so does the model.
\<close>

definition double_to_int :: "rat \<Rightarrow> int" where
  "double_to_int x =
     (let t = (if x < 0 then - \<lfloor>- x\<rfloor> else \<lfloor>x\<rfloor>)
      in if - 2147483648 \<le> t \<and> t \<le> 2147483647 then t else - 2147483648)"


section \<open>Configuration and output\<close>

text \<open>
  The static configuration variables (lines 81--86), set from the command line.
  \<^verbatim>\<open>Separation_Factor\<close> is a \<^verbatim>\<open>double\<close>, held as the rational it denotes; its default
  is the literal \<^verbatim>\<open>0.05\<close>, the double nearest to \<open>1/20\<close>.
\<close>

record config =
  Fixed_Separation :: int
  Max_Separation :: int
  Min_Output_Score :: int
  Separation_Factor :: rat
  Use_Extents :: bool

definition default_config :: config where
  "default_config =
     \<lparr>Fixed_Separation = 5, Max_Separation = 1000, Min_Output_Score = 200,
      Separation_Factor = to_double (5 / 100), Use_Extents = False\<rparr>"

text \<open>\<^verbatim>\<open>LONG_MIN\<close> and \<^verbatim>\<open>LONG_MAX\<close> of a 64-bit \<^verbatim>\<open>long\<close>.\<close>

definition LONG_MIN :: int where
  "LONG_MIN = - 9223372036854775808"

definition LONG_MAX :: int where
  "LONG_MAX = 9223372036854775807"

text \<open>
  A line written to \<^verbatim>\<open>std::cout\<close>: a label, or a match with its three numbers, the
  adjustment column (\<open>None\<close> for the text \<^verbatim>\<open>none\<close>) and the two gap columns (\<open>None\<close> for
  the two dashes of the first match of a chain). Column widths are not modelled.
\<close>

datatype out_line =
  Label string
  | Match_line (m_ref: int) (m_query: int) (m_len: int) (m_adj: "int option")
      (m_gaps: "(int \<times> int) option")

section \<open>\<^verbatim>\<open>Process_Cluster\<close>\<close>

text \<open>The body of the scoring loop over \<open>j\<close> (lines 319--336).\<close>

definition score_step :: "nat \<Rightarrow> nat \<Rightarrow> Match_t list \<Rightarrow> Match_t list" where
  "score_step i j A =
     (let Olap1 = Start1 (A ! j) + Len (A ! j) - Start1 (A ! i);
          Olap0 = max 0 Olap1;
          Olap2 = Start2 (A ! j) + Len (A ! j) - Start2 (A ! i);
          Olap = max Olap0 Olap2;
          Pen = Olap + \<bar>(Start2 (A ! i) - Start1 (A ! i)) - (Start2 (A ! j) - Start1 (A ! j))\<bar>
      in if Simple_Score (A ! j) + Len (A ! i) - Pen > Simple_Score (A ! i)
         then A[i := (A ! i)\<lparr>Simple_From := int j,
                              Simple_Score := Simple_Score (A ! j) + Len (A ! i) - Pen,
                              Simple_Adj := Olap\<rparr>]
         else A)"

text \<open>The body of the scoring loop over \<open>i\<close> (lines 314--337), and the loop (line 312).\<close>

definition score_match :: "nat \<Rightarrow> Match_t list \<Rightarrow> Match_t list" where
  "score_match i A =
     fold (score_step i) [0..<i]
       (A[i := (A ! i)\<lparr>Simple_Score := Len (A ! i), Simple_Adj := 0, Simple_From := - 1\<rparr>])"

definition score_all :: "nat \<Rightarrow> Match_t list \<Rightarrow> Match_t list" where
  "score_all N A = fold score_match [0..<N] A"

text \<open>The best end of a chain (lines 340--343).\<close>

definition find_best :: "nat \<Rightarrow> Match_t list \<Rightarrow> nat" where
  "find_best N A =
     fold (\<lambda>i best. if Simple_Score (A ! i) > Simple_Score (A ! best) then i else best)
       [1..<N] 0"

text \<open>
  The walk \<^verbatim>\<open>for (i = best; i >= 0; i = A[i].Simple_From)\<close> (lines 347--355), which
  marks the chain and accumulates \<^verbatim>\<open>total\<close> (here \<open>tot\<close>), \<^verbatim>\<open>hi\<close> and \<^verbatim>\<open>lo\<close>. A walk that does not
  end, or that leaves the \<open>N\<close> matches of the cluster, has the result \<open>None\<close>.
\<close>

partial_function (option) mark_chain ::
  "nat \<Rightarrow> Match_t list \<Rightarrow> int \<Rightarrow> int \<Rightarrow> int \<Rightarrow> int \<Rightarrow> (Match_t list \<times> int \<times> int \<times> int) option"
  where
  "mark_chain N A i tot hi lo =
     (if i \<ge> 0 then
        if nat i < N then
          (let A1 = set_Good A (nat i) True;
               tot1 = tot + Len (A1 ! nat i);
               hi1 = (if Start1 (A1 ! nat i) + Len (A1 ! nat i) > hi
                      then Start1 (A1 ! nat i) + Len (A1 ! nat i) else hi);
               lo1 = (if Start1 (A1 ! nat i) < lo then Start1 (A1 ! nat i) else lo)
           in mark_chain N A1 (Simple_From (A1 ! nat i)) tot1 hi1 lo1)
        else None
      else Some (A, tot, hi, lo))"

declare mark_chain.simps [code]

text \<open>
  One iteration of the printing loop (lines 368--389); the state is \<^verbatim>\<open>prev\<close> and the
  lines written so far.
\<close>

definition emit_step :: "Match_t list \<Rightarrow> nat \<Rightarrow> int \<times> out_line list \<Rightarrow> int \<times> out_line list"
  where
  "emit_step A i s =
     (case s of (prev, out) \<Rightarrow>
        if Good (A ! i) then
          (if prev = - 1
           then (int i, out @ [Match_line (Start1 (A ! i)) (Start2 (A ! i)) (Len (A ! i)) None None])
           else
             (let adj = Simple_Adj (A ! i) in
              (int i,
               out @ [Match_line (Start1 (A ! i) + adj) (Start2 (A ! i) + adj) (Len (A ! i) - adj)
                        (if adj = 0 then None else Some (- adj))
                        (Some (Start1 (A ! i) + adj - Start1 (A ! nat prev) - Len (A ! nat prev),
                               Start2 (A ! i) + adj - Start2 (A ! nat prev) - Len (A ! nat prev)))])))
        else s)"

definition emit_chain :: "nat \<Rightarrow> Match_t list \<Rightarrow> out_line list" where
  "emit_chain N A = snd (fold (emit_step A) [0..<N] (- 1, []))"

text \<open>
  The first part of the body of the \<^verbatim>\<open>do\<close> loop (lines 312--361): score, pick the best
  end, mark its chain. The result is the marked array and the chain's score.
\<close>

definition select_chain :: "config \<Rightarrow> Match_t list \<Rightarrow> (Match_t list \<times> int) option" where
  "select_chain cfg A =
     (let N = length A;
          A1 = score_all N A;
          best = find_best N A1
      in case mark_chain N A1 (int best) 0 LONG_MIN LONG_MAX of
           None \<Rightarrow> None
         | Some (A2, tot, hi, lo) \<Rightarrow>
             Some (A2, if Use_Extents cfg then hi - lo else tot))"

text \<open>
  The rest of the body (lines 362--402): the chain is printed after its label when its
  score reaches \<^verbatim>\<open>Min_Output_Score\<close>, and the matches that are not marked are packed to
  the front for the next iteration. Besides \<^verbatim>\<open>print_ct\<close>, \<^verbatim>\<open>label\<close> and the output,
  the model keeps a trace of the chains the loop selects, each with its score, whether
  printed or not; the code has no such variable, the trace only serves to state what
  happens to the matches of a cluster.
\<close>

type_synonym chain_trace = "(Match_t list \<times> int) list"

definition finish_pass ::
  "config \<Rightarrow> nat \<Rightarrow> string \<Rightarrow> int \<Rightarrow> out_line list \<Rightarrow> chain_trace \<Rightarrow> Match_t list \<Rightarrow> int
     \<Rightarrow> Match_t list \<times> string \<times> int \<times> out_line list \<times> chain_trace" where
  "finish_pass cfg N label print_ct out tr A2 score =
     (if score \<ge> Min_Output_Score cfg
      then (filter (\<lambda>m. \<not> Good m) A2, ''#'', print_ct + 1,
            out @ [Label label] @ emit_chain N A2, tr @ [(filter Good A2, score)])
      else (filter (\<lambda>m. \<not> Good m) A2, label, print_ct, out, tr @ [(filter Good A2, score)]))"

text \<open>The \<^verbatim>\<open>do ... while (N > 0)\<close> loop (lines 310--403).\<close>

partial_function (option) Process_Cluster_loop ::
  "config \<Rightarrow> Match_t list \<Rightarrow> string \<Rightarrow> int \<Rightarrow> out_line list \<Rightarrow> chain_trace
     \<Rightarrow> (int \<times> out_line list \<times> chain_trace) option"
  where
  "Process_Cluster_loop cfg A label print_ct out tr =
     (case select_chain cfg A of
        None \<Rightarrow> None
      | Some (A2, score) \<Rightarrow>
          (case finish_pass cfg (length A) label print_ct out tr A2 score of
             (A3, label1, print_ct1, out1, tr1) \<Rightarrow>
               if length A3 > 0
               then Process_Cluster_loop cfg A3 label1 print_ct1 out1 tr1
               else Some (print_ct1, out1, tr1)))"

declare Process_Cluster_loop.simps [code]

definition Process_Cluster_trace ::
  "config \<Rightarrow> Match_t list \<Rightarrow> string \<Rightarrow> (int \<times> out_line list \<times> chain_trace) option" where
  "Process_Cluster_trace cfg A label = Process_Cluster_loop cfg A label 0 [] []"

text \<open>
  \<^verbatim>\<open>Process_Cluster (A, N, label)\<close> with \<open>N = length A\<close>: the number of chains printed
  and the lines written.
\<close>

definition Process_Cluster :: "config \<Rightarrow> Match_t list \<Rightarrow> string \<Rightarrow> (int \<times> out_line list) option"
  where
  "Process_Cluster cfg A label =
     map_option (\<lambda>(print_ct, out, tr). (print_ct, out)) (Process_Cluster_trace cfg A label)"

section \<open>\<^verbatim>\<open>struct UnionFind\<close>\<close>

text \<open>
  The vector \<^verbatim>\<open>m_UF\<close>, indexed from 1: a negative entry marks a root and holds minus
  the size of its set, a positive entry is the parent. \<^verbatim>\<open>operator[]\<close> does not check
  its index; a read or write outside the vector is undefined behaviour, and a failed
  \<^verbatim>\<open>assert\<close> aborts. Either is the result \<open>None\<close>, and so is a loop that does not end.
\<close>

definition UF_get :: "int list \<Rightarrow> int \<Rightarrow> int option" where
  "UF_get uf a = (if 0 \<le> a \<and> a < int (length uf) then Some (uf ! nat a) else None)"

text \<open>
  \<^verbatim>\<open>reset\<close> (lines 32--36). The assertion reads \<^verbatim>\<open>m_UF[1]\<close> only when \<^verbatim>\<open>s >= 1\<close>.
\<close>

definition UF_reset :: "nat \<Rightarrow> int list option" where
  "UF_reset s =
     (let uf = replicate (s + 1) (- 1)
      in if s \<ge> 1 \<and> uf ! 1 = - 1 then Some uf else None)"

text \<open>The first loop of \<^verbatim>\<open>find\<close> (line 43): follow the parents up to the root.\<close>

partial_function (option) UF_root :: "int list \<Rightarrow> int \<Rightarrow> int option" where
  "UF_root uf i =
     (case UF_get uf i of
        None \<Rightarrow> None
      | Some p \<Rightarrow> if p > 0 then UF_root uf p else Some i)"

declare UF_root.simps [code]

text \<open>The second loop of \<^verbatim>\<open>find\<close> (lines 45--48): point the path at the root \<open>i\<close>.\<close>

partial_function (option) UF_compress :: "int list \<Rightarrow> int \<Rightarrow> int \<Rightarrow> int list option" where
  "UF_compress uf i j =
     (case UF_get uf j of
        None \<Rightarrow> None
      | Some k \<Rightarrow> if k \<noteq> i then UF_compress (uf[nat j := i]) i k else Some uf)"

declare UF_compress.simps [code]

text \<open>\<^verbatim>\<open>find\<close> (lines 38--50): the vector after path compression, and the root.\<close>

definition UF_find :: "int list \<Rightarrow> int \<Rightarrow> (int list \<times> int) option" where
  "UF_find uf a =
     (case UF_get uf a of
        None \<Rightarrow> None
      | Some p \<Rightarrow>
          if p < 0 then Some (uf, a)
          else
            (case UF_root uf a of
               None \<Rightarrow> None
             | Some i \<Rightarrow>
                 (case UF_compress uf i a of
                    None \<Rightarrow> None
                  | Some uf1 \<Rightarrow> Some (uf1, i))))"

text \<open>\<^verbatim>\<open>union_sets\<close> (lines 53--64), with its assertion that both arguments are roots.\<close>

definition UF_union_sets :: "int list \<Rightarrow> int \<Rightarrow> int \<Rightarrow> int list option" where
  "UF_union_sets uf a b =
     (if a = b then Some uf
      else
        (case UF_get uf a of
           None \<Rightarrow> None
         | Some ua \<Rightarrow>
             if \<not> ua < 0 then None
             else
               (case UF_get uf b of
                  None \<Rightarrow> None
                | Some ub \<Rightarrow>
                    if \<not> ub < 0 then None
                    else if ua < ub
                    then Some ((uf[nat a := ua + ub])[nat b := a])
                    else Some ((uf[nat b := ub + ua])[nat a := b]))))"

section \<open>\<^verbatim>\<open>Process_Matches\<close>\<close>

text \<open>
  \<^verbatim>\<open>Process_Matches\<close> receives a pointer \<^verbatim>\<open>A\<close> one before the first match and indexes
  the matches as \<^verbatim>\<open>A[1 .. N]\<close>. The model holds the \<open>N\<close> matches as a list, and
  \<open>at1 A i\<close> is the code's \<^verbatim>\<open>A[i]\<close>.
\<close>

definition at1 :: "'a list \<Rightarrow> nat \<Rightarrow> 'a" where
  "at1 A i = A ! (i - 1)"

text \<open>
  The tolerance of line 449, \<^verbatim>\<open>std::max (Fixed_Separation, (int)(Separation_Factor * sep))\<close>:
  \<^verbatim>\<open>sep\<close> is converted to \<^verbatim>\<open>double\<close>, the product is rounded to a double and converted to
  \<^verbatim>\<open>int\<close>.
\<close>

definition sep_tolerance :: "config \<Rightarrow> int \<Rightarrow> int" where
  "sep_tolerance cfg sep =
     max (Fixed_Separation cfg)
       (double_to_int (to_double (Separation_Factor cfg * to_double (of_int sep))))"

text \<open>
  \<^verbatim>\<open>UF.union_sets (UF.find (i), UF.find (j))\<close> (line 450). C++ does not fix the order in
  which the two arguments are evaluated; the model evaluates \<^verbatim>\<open>find (i)\<close> first.
\<close>

definition cluster_join :: "int list \<Rightarrow> int \<Rightarrow> int \<Rightarrow> int list option" where
  "cluster_join uf i j =
     (case UF_find uf i of
        None \<Rightarrow> None
      | Some (uf1, ri) \<Rightarrow>
          (case UF_find uf1 j of
             None \<Rightarrow> None
           | Some (uf2, rj) \<Rightarrow> UF_union_sets uf2 ri rj))"

text \<open>The inner loop of the clustering (lines 440--451), with its \<^verbatim>\<open>break\<close>.\<close>

function cluster_scan ::
  "config \<Rightarrow> Match_t list \<Rightarrow> nat \<Rightarrow> nat \<Rightarrow> int \<Rightarrow> int \<Rightarrow> nat \<Rightarrow> int list \<Rightarrow> int list option"
  where
  "cluster_scan cfg A N i i_end i_diag j uf =
     (if j \<le> N then
        if Start2 (at1 A j) - i_end > Max_Separation cfg then Some uf
        else if \<bar>(Start2 (at1 A j) - Start1 (at1 A j)) - i_diag\<bar>
                  \<le> sep_tolerance cfg (Start2 (at1 A j) - i_end)
        then
          (case cluster_join uf (int i) (int j) of
             None \<Rightarrow> None
           | Some uf1 \<Rightarrow> cluster_scan cfg A N i i_end i_diag (j + 1) uf1)
        else cluster_scan cfg A N i i_end i_diag (j + 1) uf
      else Some uf)"
  by pat_completeness auto
termination
  by (relation "measure (\<lambda>(cfg, A, N, i, i_end, i_diag, j, uf). N + 1 - j)") auto

declare cluster_scan.simps [simp del]

text \<open>The body of the outer loop (lines 437--451) and the loop (line 435).\<close>

definition cluster_outer :: "config \<Rightarrow> Match_t list \<Rightarrow> nat \<Rightarrow> nat \<Rightarrow> int list \<Rightarrow> int list option"
  where
  "cluster_outer cfg A N i uf =
     cluster_scan cfg A N i (Start2 (at1 A i) + Len (at1 A i))
       (Start2 (at1 A i) - Start1 (at1 A i)) (i + 1) uf"

definition cluster_all :: "config \<Rightarrow> Match_t list \<Rightarrow> nat \<Rightarrow> int list \<Rightarrow> int list option" where
  "cluster_all cfg A N uf =
     fold (\<lambda>i r. Option.bind r (cluster_outer cfg A N i)) [1..<N] (Some uf)"

text \<open>
  The cluster id is a 30-bit signed bit-field; storing an \<^verbatim>\<open>int\<close> in it keeps the low
  30 bits.
\<close>

definition to_bitfield30 :: "int \<Rightarrow> int" where
  "to_bitfield30 x = (x + 536870912) mod 1073741824 - 536870912"

text \<open>\<^verbatim>\<open>A[i].cluster_id = UF.find (i)\<close> for every match (lines 456--457).\<close>

definition set_cluster_id ::
  "nat \<Rightarrow> int list \<times> Match_t list \<Rightarrow> (int list \<times> Match_t list) option" where
  "set_cluster_id i s =
     (case s of (uf, A) \<Rightarrow>
        (case UF_find uf (int i) of
           None \<Rightarrow> None
         | Some (uf1, r) \<Rightarrow>
             Some (uf1, A[i - 1 := (at1 A i)\<lparr>cluster_id := to_bitfield30 r\<rparr>])))"

definition set_cluster_ids ::
  "nat \<Rightarrow> int list \<Rightarrow> Match_t list \<Rightarrow> (int list \<times> Match_t list) option" where
  "set_cluster_ids N uf A =
     fold (\<lambda>i r. Option.bind r (set_cluster_id i)) [1..<N + 1] (Some (uf, A))"

text \<open>
  The clustering of the filtered matches: lines 435--457, after \<^verbatim>\<open>UF.reset\<close> with the
  number \<open>N0\<close> of matches before the filter (line 429).
\<close>

definition cluster_matches ::
  "config \<Rightarrow> nat \<Rightarrow> Match_t list \<Rightarrow> (int list \<times> Match_t list) option" where
  "cluster_matches cfg N0 A =
     (case UF_reset N0 of
        None \<Rightarrow> None
      | Some uf \<Rightarrow>
          (case cluster_all cfg A (length A) uf of
             None \<Rightarrow> None
           | Some uf1 \<Rightarrow> set_cluster_ids (length A) uf1 A))"

text \<open>
  The end of the cluster that starts at \<open>i\<close>: the loop
  \<^verbatim>\<open>for (j = i + 1; j <= N && A[i].cluster_id == A[j].cluster_id; j++)\<close> of line 464.
\<close>

function cluster_end :: "Match_t list \<Rightarrow> nat \<Rightarrow> nat \<Rightarrow> nat \<Rightarrow> nat" where
  "cluster_end A N i j =
     (if j \<le> N \<and> cluster_id (at1 A i) = cluster_id (at1 A j)
      then cluster_end A N i (j + 1) else j)"
  by pat_completeness auto
termination
  by (relation "measure (\<lambda>(A, N, i, j). N + 1 - j)") auto

declare cluster_end.simps [simp del]

text \<open>
  The loop over the clusters (lines 461--470). \<open>Process_Cluster\<close> works in place on the
  \<^verbatim>\<open>cluster_size\<close> matches from \<^verbatim>\<open>A + i\<close>; what it leaves there is not read again, so the
  model hands it a copy of that slice. The result is \<^verbatim>\<open>print_ct\<close>, the label and the
  lines written.
\<close>

partial_function (option) Process_clusters ::
  "config \<Rightarrow> Match_t list \<Rightarrow> nat \<Rightarrow> nat \<Rightarrow> string \<Rightarrow> int \<Rightarrow> out_line list
     \<Rightarrow> (int \<times> string \<times> out_line list) option"
  where
  "Process_clusters cfg A N i label print_ct out =
     (if i \<le> N then
        (case Process_Cluster cfg (take (cluster_end A N i (i + 1) - i) (drop (i - 1) A)) label of
           None \<Rightarrow> None
         | Some (ct, lines) \<Rightarrow>
             Process_clusters cfg A N (i + (cluster_end A N i (i + 1) - i))
               (if print_ct + ct > 0 then ''#'' else label) (print_ct + ct) (out @ lines))
      else Some (print_ct, label, out))"

declare Process_clusters.simps [code]

text \<open>
  \<^verbatim>\<open>Process_Matches (A, UF, N, label)\<close> with \<open>N = length A\<close> (lines 411--504). The first
  component of the result of \<open>Process_Matches_count\<close> is the final \<^verbatim>\<open>print_ct\<close>, the
  number of chains printed for the query.
\<close>

definition Process_Matches_count ::
  "config \<Rightarrow> Match_t list \<Rightarrow> string \<Rightarrow> (int \<times> out_line list) option" where
  "Process_Matches_count cfg A label =
     (if length A \<le> 0 then Some (0, [Label label])
      else
        (case Filter_Matches (qsort By_Start2 A) of
           None \<Rightarrow> None
         | Some A2 \<Rightarrow>
             (case cluster_matches cfg (length A) A2 of
                None \<Rightarrow> None
              | Some (uf, A3) \<Rightarrow>
                  (case Process_clusters cfg (qsort By_Cluster A3) (length A2) 1 label 0 [] of
                     None \<Rightarrow> None
                   | Some (print_ct, label1, out) \<Rightarrow>
                       Some (print_ct, if print_ct = 0 then out @ [Label label1] else out)))))"

definition Process_Matches :: "config \<Rightarrow> Match_t list \<Rightarrow> string \<Rightarrow> out_line list option" where
  "Process_Matches cfg A label = map_option snd (Process_Matches_count cfg A label)"

section \<open>Properties of \<^verbatim>\<open>Filter_Matches\<close>\<close>

definition diagonal :: "Match_t \<Rightarrow> int" where
  "diagonal m = Start2 m - Start1 m"

definition sorted_Start2 :: "Match_t list \<Rightarrow> bool" where
  "sorted_Start2 A = sorted_wrt (\<lambda>x y. Start2 x \<le> Start2 y) A"

text \<open>
  The diagonal and the end of a match as the filter holds them in its \<^verbatim>\<open>int\<close> locals
  \<^verbatim>\<open>i_diag\<close>, \<^verbatim>\<open>j_diag\<close> and \<^verbatim>\<open>i_end\<close> (lines 188, 189 and 200).
\<close>

definition int_diag :: "Match_t \<Rightarrow> int" where
  "int_diag m = long_to_int (Start2 m - Start1 m)"

definition int_end :: "Match_t \<Rightarrow> int" where
  "int_end m = long_to_int (Start2 m + Len m)"

lemma Filter_scan_rule:
  assumes init: "Inv A i_end j"
    and ord: "\<And>A e j. Inv A e j \<Longrightarrow> j < N \<Longrightarrow> Start2 (A ! j) \<le> e \<Longrightarrow>
                 Start2 (A ! i) \<le> Start2 (A ! j)"
    and step: "\<And>A e j A1 e1 brk. Inv A e j \<Longrightarrow> j < N \<Longrightarrow> Start2 (A ! j) \<le> e \<Longrightarrow>
                 Filter_step A i i_diag e j = (A1, e1, brk) \<Longrightarrow>
                 (brk \<longrightarrow> Post A1) \<and> (\<not> brk \<longrightarrow> Inv A1 e1 (j + 1))"
    and exit: "\<And>A e j. Inv A e j \<Longrightarrow> \<not> (j < N \<and> Start2 (A ! j) \<le> e) \<Longrightarrow> Post A"
  shows "\<exists>B. Filter_scan N i i_diag A i_end j = Some B \<and> Post B"
  using init ord step exit
proof (induction N i i_diag A i_end j rule: Filter_scan.induct)
  case (1 N i i_diag A i_end j)
  show ?case
  proof (cases "j < N \<and> Start2 (A ! j) \<le> i_end")
    case False
    have "Filter_scan N i i_diag A i_end j = Some A"
      using False by (subst Filter_scan.simps) auto
    with "1.prems"(4)[OF "1.prems"(1) False] show ?thesis by simp
  next
    case True
    obtain A1 e1 brk where st: "Filter_step A i i_diag i_end j = (A1, e1, brk)"
      by (cases "Filter_step A i i_diag i_end j") auto
    from True have c1: "j < N" and c2: "Start2 (A ! j) \<le> i_end" by auto
    note le = "1.prems"(2)[OF "1.prems"(1) c1 c2]
    note S = "1.prems"(3)[OF "1.prems"(1) c1 c2 st]
    have eq: "Filter_scan N i i_diag A i_end j =
          (if brk then Some A1 else Filter_scan N i i_diag A1 e1 (j + 1))"
      by (subst Filter_scan.simps) (simp add: c1 c2 st le)
    show ?thesis
    proof (cases brk)
      case True
      with S eq show ?thesis by simp
    next
      case False
      with S have "Inv A1 e1 (j + 1)" by simp
      from "1.IH"[OF True _ st[symmetric] refl False this "1.prems"(2,3,4)] le
      show ?thesis using eq False by simp
    qed
  qed
qed

lemma length_set_Good [simp]: "length (set_Good A i b) = length A"
  by (simp add: set_Good_def)
lemma length_set_Tentative [simp]: "length (set_Tentative A i b) = length A"
  by (simp add: set_Tentative_def)
lemma length_set_Len [simp]: "length (set_Len A i b) = length A"
  by (simp add: set_Len_def)

lemma nth_set_Good [simp]:
  "q < length A \<Longrightarrow> set_Good A i b ! q = (if q = i then (A ! i)\<lparr>Good := b\<rparr> else A ! q)"
  by (simp add: set_Good_def)
lemma nth_set_Tentative [simp]:
  "q < length A \<Longrightarrow> set_Tentative A i b ! q = (if q = i then (A ! i)\<lparr>Tentative := b\<rparr> else A ! q)"
  by (simp add: set_Tentative_def)
lemma nth_set_Len [simp]:
  "q < length A \<Longrightarrow> set_Len A i b ! q = (if q = i then (A ! i)\<lparr>Len := b\<rparr> else A ! q)"
  by (simp add: set_Len_def)

text \<open>The scan only clears \<open>Good\<close>, sets \<open>Tentative\<close> and extends the length of \<open>i\<close>.\<close>

definition frame :: "nat \<Rightarrow> Match_t list \<Rightarrow> Match_t list \<Rightarrow> bool" where
  "frame i A B \<longleftrightarrow> length B = length A \<and>
     (\<forall>q < length A. Start1 (B ! q) = Start1 (A ! q) \<and> Start2 (B ! q) = Start2 (A ! q)
        \<and> (Good (B ! q) \<longrightarrow> Good (A ! q)) \<and> (q \<noteq> i \<longrightarrow> Len (B ! q) = Len (A ! q)))"

lemma frame_refl: "frame i A A"
  by (simp add: frame_def)

lemma frame_trans: "frame i A B \<Longrightarrow> frame i B C \<Longrightarrow> frame i A C"
  by (simp add: frame_def)

lemma resolve_frame:
  assumes "resolve A i j olap = (A1, brk)" "i < length A" "j < length A"
  shows "frame k A A1 \<and> map Len A1 = map Len A \<and> (brk \<longrightarrow> \<not> Good (A1 ! i))"
  using assms
  by (auto simp: resolve_def Let_def frame_def split: if_splits intro!: nth_equalityI)

lemma frame_set_Good: "frame i A (set_Good A j False)"
  by (simp add: frame_def)

lemma frame_set_Len: "frame i A (set_Len A i x)"
  by (simp add: frame_def)

lemma frame_int_diag: "frame i A B \<Longrightarrow> q < length A \<Longrightarrow> int_diag (B ! q) = int_diag (A ! q)"
  by (simp add: frame_def int_diag_def)

lemma frame_int_end:
  "frame i A B \<Longrightarrow> q < length A \<Longrightarrow> q \<noteq> i \<Longrightarrow> int_end (B ! q) = int_end (A ! q)"
  by (simp add: frame_def int_end_def)

text \<open>
  One step of the inner loop keeps \<^verbatim>\<open>i_end\<close> the end of \<open>i\<close>, and a match \<open>j\<close> that it leaves
  good is on another diagonal than \<open>i\<close>, as the \<^verbatim>\<open>int\<close> locals see them.
\<close>

lemma Filter_step_spec:
  assumes st: "Filter_step A i (int_diag (A ! i)) e j = (A1, e1, brk)"
    and ij: "i < j" "j < length A"
    and e: "e = int_end (A ! i)"
  shows "frame i A A1 \<and> e1 = int_end (A1 ! i)
         \<and> (\<not> brk \<longrightarrow> Good (A1 ! j) \<longrightarrow> int_diag (A1 ! j) \<noteq> int_diag (A1 ! i))
         \<and> (brk \<longrightarrow> \<not> Good (A1 ! i))"
proof (cases "Good (A ! j)")
  case False
  with st have "A1 = A" "e1 = e" "\<not> brk" by (simp_all add: Filter_step_def)
  with e False show ?thesis by (simp add: frame_refl)
next
  case G: True
  note w = st[unfolded Filter_step_def int_diag_def[symmetric]]
  show ?thesis
  proof (cases "int_diag (A ! i) = int_diag (A ! j)")
    case True
    let ?x = "long_to_int (Len (A ! j) + Start2 (A ! j) - Start2 (A ! i))"
    show ?thesis
    proof (cases "?x > Len (A ! i)")
      case False
      with w G True have "A1 = set_Good A j False" "e1 = e" "\<not> brk"
        by (auto simp: Let_def)
      with e ij show ?thesis
        by (simp add: frame_set_Good int_end_def)
    next
      case X: True
      with w G True have r: "A1 = set_Good (set_Len A i ?x) j False"
          "e1 = long_to_int (Start2 (A ! i) + ?x)" "\<not> brk"
        by (auto simp: Let_def)
      have "frame i A A1"
        unfolding r by (rule frame_trans[OF frame_set_Len frame_set_Good])
      then show ?thesis using r ij by (simp add: int_end_def)
    qed
  next
    case D: False
    have R: "frame i A A1 \<and> e1 = int_end (A1 ! i) \<and> (brk \<longrightarrow> \<not> Good (A1 ! i))"
      if "resolve A i j ol = (A1, brk)" "e1 = e" for ol
    proof -
      from resolve_frame[OF that(1)] ij
      have f: "frame i A A1" and l: "map Len A1 = map Len A" and b: "brk \<longrightarrow> \<not> Good (A1 ! i)"
        by auto
      from f have len: "length A1 = length A" by (simp add: frame_def)
      have "Len (A1 ! i) = Len (A ! i)"
        using l ij len by (metis less_trans nth_map)
      then have "e1 = int_end (A1 ! i)"
        using e that(2) f ij by (simp add: frame_def int_end_def)
      then show ?thesis using f b by simp
    qed
    have dd: "int_diag (A1 ! j) \<noteq> int_diag (A1 ! i)" if "frame i A A1"
      using that D ij frame_int_diag[OF that, of i] frame_int_diag[OF that, of j] by simp
    show ?thesis
    proof (cases "Start1 (A ! i) = Start1 (A ! j)")
      case True
      with w G D R dd show ?thesis by (auto simp: Let_def split: prod.splits)
    next
      case S1: False
      show ?thesis
      proof (cases "Start2 (A ! i) = Start2 (A ! j)")
        case True
        with w G D S1 R dd show ?thesis by (auto simp: Let_def split: prod.splits)
      next
        case False
        with w G D S1 have "A1 = A" "e1 = e" "\<not> brk" by (auto simp: Let_def)
        with e D show ?thesis by (simp add: frame_refl)
      qed
    qed
  qed
qed

lemma fold_upt_rule:
  assumes "P m a" and "\<And>k a. m \<le> k \<Longrightarrow> k < n \<Longrightarrow> P k a \<Longrightarrow> P (Suc k) (f k a)" and "m \<le> n"
  shows "P n (fold f [m..<n] a)"
  using assms(3,2)
proof (induction n)
  case 0
  with assms(1) show ?case by simp
next
  case (Suc n)
  show ?case
  proof (cases "m \<le> n")
    case True
    have "P n (fold f [m..<n] a)"
      using Suc.IH[OF True] Suc.prems(2) by simp
    with Suc.prems(2)[OF True] True show ?thesis by simp
  next
    case False
    with Suc.prems(1) have "m = Suc n" by simp
    with assms(1) show ?thesis by simp
  qed
qed

lemma sorted_Start2_nth:
  "sorted_Start2 A \<Longrightarrow> p \<le> q \<Longrightarrow> q < length A \<Longrightarrow> Start2 (A ! p) \<le> Start2 (A ! q)"
  unfolding sorted_Start2_def
  by (cases "p = q") (auto simp: sorted_wrt_iff_nth_less)

lemma frame_sorted: "frame i A B \<Longrightarrow> sorted_Start2 A \<Longrightarrow> sorted_Start2 B"
  unfolding sorted_Start2_def frame_def
  by (auto simp: sorted_wrt_iff_nth_less)

lemma frame_diagonal: "frame i A B \<Longrightarrow> q < length A \<Longrightarrow> diagonal (B ! q) = diagonal (A ! q)"
  by (simp add: frame_def diagonal_def)

text \<open>
  What the scan from \<open>i\<close> establishes: a later good match on the diagonal of \<open>i\<close> starts
  after the end of \<open>i\<close>, diagonal and end as the \<^verbatim>\<open>int\<close> locals hold them.
\<close>

definition separated :: "nat \<Rightarrow> Match_t list \<Rightarrow> nat \<Rightarrow> bool" where
  "separated N A i \<longleftrightarrow> (\<forall>q. i < q \<longrightarrow> q < N \<longrightarrow> Good (A ! i) \<longrightarrow> Good (A ! q) \<longrightarrow>
      int_diag (A ! q) = int_diag (A ! i) \<longrightarrow> int_end (A ! i) < Start2 (A ! q))"

lemma Filter_scan_post:
  assumes N: "length A0 = N" and srt: "sorted_Start2 A0" and i: "i < N"
  shows "\<exists>A'. Filter_scan N i (int_diag (A0 ! i)) A0 (int_end (A0 ! i)) (i + 1)
           = Some A' \<and> frame i A0 A' \<and> separated N A' i"
proof (rule Filter_scan_rule[where
      Inv = "\<lambda>A e j. frame i A0 A \<and> e = int_end (A ! i) \<and> i < j
         \<and> (\<forall>q. i < q \<longrightarrow> q < j \<longrightarrow> Good (A ! q) \<longrightarrow> int_diag (A ! q) \<noteq> int_diag (A ! i))"])
  show "frame i A0 A0 \<and> int_end (A0 ! i) = int_end (A0 ! i) \<and> i < i + 1 \<and>
    (\<forall>q. i < q \<longrightarrow> q < i + 1 \<longrightarrow> Good (A0 ! q) \<longrightarrow> int_diag (A0 ! q) \<noteq> int_diag (A0 ! i))"
    by (simp add: frame_refl)
next
  fix A e j
  assume inv: "frame i A0 A \<and> e = int_end (A ! i) \<and> i < j
         \<and> (\<forall>q. i < q \<longrightarrow> q < j \<longrightarrow> Good (A ! q) \<longrightarrow> int_diag (A ! q) \<noteq> int_diag (A ! i))"
    and j: "j < N"
  from inv have f: "frame i A0 A" and ij: "i < j" by auto
  from f N have len: "length A = N" by (simp add: frame_def)
  show "Start2 (A ! i) \<le> Start2 (A ! j)"
    using sorted_Start2_nth[OF frame_sorted[OF f srt], of i j] ij j len by simp
next
  fix A e j A1 e1 brk
  assume inv: "frame i A0 A \<and> e = int_end (A ! i) \<and> i < j
         \<and> (\<forall>q. i < q \<longrightarrow> q < j \<longrightarrow> Good (A ! q) \<longrightarrow> int_diag (A ! q) \<noteq> int_diag (A ! i))"
    and j: "j < N" and "Start2 (A ! j) \<le> e"
    and st: "Filter_step A i (int_diag (A0 ! i)) e j = (A1, e1, brk)"
  from inv have f: "frame i A0 A" and ij: "i < j" by auto
  from f N have len: "length A = N" by (simp add: frame_def)
  have di: "int_diag (A0 ! i) = int_diag (A ! i)"
    using frame_int_diag[OF f] i N by simp
  from Filter_step_spec[OF st[unfolded di] ij] inv j len
  have sp: "frame i A A1" "e1 = int_end (A1 ! i)"
     "\<not> brk \<longrightarrow> Good (A1 ! j) \<longrightarrow> int_diag (A1 ! j) \<noteq> int_diag (A1 ! i)"
     "brk \<longrightarrow> \<not> Good (A1 ! i)"
    by auto
  have f1: "frame i A0 A1" using frame_trans[OF f sp(1)] .
  have old: "Good (A1 ! q) \<longrightarrow> int_diag (A1 ! q) \<noteq> int_diag (A1 ! i)" if "i < q" "q < j" for q
  proof -
    have "Good (A1 ! q) \<longrightarrow> Good (A ! q)" using sp(1) that j len by (simp add: frame_def)
    moreover have "int_diag (A1 ! q) = int_diag (A ! q)" "int_diag (A1 ! i) = int_diag (A ! i)"
      using frame_int_diag[OF sp(1)] that j len i by auto
    ultimately show ?thesis using inv that by auto
  qed
  show "(brk \<longrightarrow> frame i A0 A1 \<and> separated N A1 i) \<and>
        (\<not> brk \<longrightarrow> frame i A0 A1 \<and> e1 = int_end (A1 ! i) \<and> i < j + 1
          \<and> (\<forall>q. i < q \<longrightarrow> q < j + 1 \<longrightarrow> Good (A1 ! q) \<longrightarrow> int_diag (A1 ! q) \<noteq> int_diag (A1 ! i)))"
  proof (intro conjI impI allI)
    fix q assume "\<not> brk" "i < q" "q < j + 1" "Good (A1 ! q)"
    then show "int_diag (A1 ! q) \<noteq> int_diag (A1 ! i)"
      using old[of q] sp(3) by (cases "q = j") auto
  qed (use f1 sp ij in \<open>auto simp: separated_def\<close>)
next
  fix A e j
  assume inv: "frame i A0 A \<and> e = int_end (A ! i) \<and> i < j
         \<and> (\<forall>q. i < q \<longrightarrow> q < j \<longrightarrow> Good (A ! q) \<longrightarrow> int_diag (A ! q) \<noteq> int_diag (A ! i))"
    and ex: "\<not> (j < N \<and> Start2 (A ! j) \<le> e)"
  from inv have f: "frame i A0 A" by simp
  from f N have len: "length A = N" by (simp add: frame_def)
  have "int_end (A ! i) < Start2 (A ! q)"
    if "i < q" "q < N" "Good (A ! q)" "int_diag (A ! q) = int_diag (A ! i)" for q
  proof -
    from inv that have "j \<le> q" by (meson not_le_imp_less)
    with that have "j < N" by simp
    with ex inv have "int_end (A ! i) < Start2 (A ! j)" by auto
    also have "\<dots> \<le> Start2 (A ! q)"
      using sorted_Start2_nth[OF frame_sorted[OF f srt] \<open>j \<le> q\<close>] that len by simp
    finally show ?thesis .
  qed
  then show "frame i A0 A \<and> separated N A i"
    using inv by (auto simp: separated_def)
qed

lemma Filter_outer_post:
  assumes N: "length A = N" and srt: "sorted_Start2 A" and i: "i < N"
  shows "\<exists>B. Filter_outer N i A = Some B \<and> frame i A B \<and> separated N B i"
proof (cases "Good (A ! i)")
  case True
  then show ?thesis
    using Filter_scan_post[OF N srt i]
    by (simp add: Filter_outer_def int_diag_def int_end_def)
next
  case False
  then show ?thesis
    by (simp add: Filter_outer_def frame_refl separated_def)
qed

lemma separated_frame:
  assumes "separated N A p" "frame i A B" "p \<noteq> i" "length A = N"
  shows "separated N B p"
  unfolding separated_def
proof (intro allI impI)
  fix q assume q: "p < q" "q < N" "Good (B ! p)" "Good (B ! q)" "int_diag (B ! q) = int_diag (B ! p)"
  with assms have "Good (A ! p)" "Good (A ! q)" by (auto simp: frame_def)
  moreover have "int_diag (A ! q) = int_diag (A ! p)"
    using q frame_int_diag[OF assms(2)] assms(4) by simp
  ultimately have "int_end (A ! p) < Start2 (A ! q)"
    using assms(1) q by (simp add: separated_def)
  then show "int_end (B ! p) < Start2 (B ! q)"
    using assms(2,3,4) q frame_int_end[OF assms(2), of p] by (simp add: frame_def)
qed

lemma Filter_loop_post:
  assumes N: "length A = N" and srt: "sorted_Start2 A" and n: "n \<le> N"
  shows "\<exists>B. fold (\<lambda>i r. Option.bind r (Filter_outer N i)) [0..<n] (Some A) = Some B
         \<and> length B = N \<and> sorted_Start2 B \<and> (\<forall>p < n. separated N B p)"
proof (rule fold_upt_rule[where P = "\<lambda>k r. \<exists>B. r = Some B \<and> length B = N
         \<and> sorted_Start2 B \<and> (\<forall>p < k. separated N B p)"])
  show "\<exists>B. Some A = Some B \<and> length B = N \<and> sorted_Start2 B \<and> (\<forall>p<0. separated N B p)"
    using assms by simp
next
  fix k r
  assume k: "k < n" and "\<exists>B. r = Some B \<and> length B = N \<and> sorted_Start2 B
         \<and> (\<forall>p < k. separated N B p)"
  then obtain B where r: "r = Some B" and inv: "length B = N \<and> sorted_Start2 B
         \<and> (\<forall>p < k. separated N B p)" by blast
  from k n have kN: "k < N" by simp
  from inv have len: "length B = N" by simp
  from Filter_outer_post[OF len _ kN] inv
  obtain C where C: "Filter_outer N k B = Some C"
    and fr: "frame k B C" and sep: "separated N C k" by auto
  have "separated N C p" if "p < Suc k" for p
    using that sep separated_frame[OF _ fr _ len, of p] inv by (cases "p = k") auto
  then have "length C = N \<and> sorted_Start2 C \<and> (\<forall>p < Suc k. separated N C p)"
    using fr inv frame_sorted[OF fr] by (simp add: frame_def)
  then show "\<exists>B. Option.bind r (Filter_outer N k) = Some B \<and> length B = N
         \<and> sorted_Start2 B \<and> (\<forall>p < Suc k. separated N B p)"
    using r C by simp
qed simp

text \<open>
  Two matches are apart when they are on different diagonals or the second starts after
  the end of the first, diagonal and end as the \<^verbatim>\<open>int\<close> locals of the filter hold them.
\<close>

definition apart :: "Match_t \<Rightarrow> Match_t \<Rightarrow> bool" where
  "apart a b \<longleftrightarrow> (int_diag a = int_diag b \<longrightarrow> int_end a < Start2 b)"

lemma sorted_wrt_filter_nth:
  assumes "\<And>p q. p < q \<Longrightarrow> q < length xs \<Longrightarrow> P (xs ! p) \<Longrightarrow> P (xs ! q) \<Longrightarrow> R (xs ! p) (xs ! q)"
  shows "sorted_wrt R (filter P xs)"
  using assms
proof (induction xs)
  case Nil
  then show ?case by simp
next
  case (Cons x xs)
  have tl: "sorted_wrt R (filter P xs)"
  proof (rule Cons.IH)
    fix p q assume "p < q" "q < length xs" "P (xs ! p)" "P (xs ! q)"
    then show "R (xs ! p) (xs ! q)"
      using Cons.prems[of "Suc p" "Suc q"] by simp
  qed
  have "R x y" if "P x" "y \<in> set xs" "P y" for y
  proof -
    from that(2) obtain k where "k < length xs" "xs ! k = y" by (auto simp: in_set_conv_nth)
    with Cons.prems[of 0 "Suc k"] that show ?thesis by simp
  qed
  with tl show ?case by auto
qed

text \<open>
  On input sorted by \<open>Start2\<close> the filter returns: no assertion fails. Its output is
  sorted by \<open>Start2\<close>, not longer than the input, and its matches are pairwise apart.
\<close>

lemma Filter_Matches_post:
  assumes srt: "sorted_Start2 A"
  shows "\<exists>B. Filter_Matches A = Some B \<and> length B \<le> length A \<and> sorted_Start2 B
     \<and> sorted_wrt apart B"
proof -
  let ?A1 = "map (\<lambda>m. m\<lparr>Good := True\<rparr>) A"
  let ?N = "length A"
  have 1: "length ?A1 = ?N" "sorted_Start2 ?A1"
    using srt by (auto simp: sorted_Start2_def sorted_wrt_map)
  from Filter_loop_post[OF 1, of "?N - 1"]
  obtain B where M: "Filter_marked A = Some B"
    and B: "length B = ?N" "sorted_Start2 B" "\<forall>p < ?N - 1. separated ?N B p"
    by (auto simp: Filter_marked_def)
  have ap: "sorted_wrt apart (filter Good B)"
  proof (rule sorted_wrt_filter_nth)
    fix p q assume pq: "p < q" "q < length B" "Good (B ! p)" "Good (B ! q)"
    with B(1) have "p < ?N - 1" by simp
    with B(3) have "separated ?N B p" by simp
    with pq B(1) show "apart (B ! p) (B ! q)"
      by (auto simp: separated_def apart_def)
  qed
  have "sorted_Start2 (filter Good B)"
    using B(2) by (simp add: sorted_Start2_def sorted_wrt_filter)
  moreover have "apart (a\<lparr>Good := False\<rparr>) (b\<lparr>Good := False\<rparr>) = apart a b" for a b
    by (simp add: apart_def int_diag_def int_end_def)
  then have "sorted_wrt apart (map (\<lambda>m. m\<lparr>Good := False\<rparr>) xs) = sorted_wrt apart xs" for xs
    by (simp add: sorted_wrt_map)
  moreover have "length (filter Good B) \<le> ?N"
    using B(1) length_filter_le[of Good B] by simp
  ultimately show ?thesis using ap M
    by (simp add: Filter_Matches_def sorted_Start2_def sorted_wrt_map)
qed

subsection \<open>A second run of the filter\<close>

lemma coords_set_Good [simp]: "map coords (set_Good A i b) = map coords A"
  by (cases "i < length A") (auto simp: set_Good_def nth_list_update coords_def intro!: nth_equalityI)

lemma coords_set_Tentative [simp]: "map coords (set_Tentative A i b) = map coords A"
  by (cases "i < length A") (auto simp: set_Tentative_def nth_list_update coords_def intro!: nth_equalityI)

lemma resolve_coords:
  assumes "resolve A i j olap = (A1, brk)"
  shows "map coords A1 = map coords A"
  using assms by (auto simp: resolve_def Let_def split: if_splits)

lemma coords_eqD:
  assumes "coords a = coords b"
  shows "Start1 a = Start1 b" "Start2 a = Start2 b" "Len a = Len b"
    "int_diag a = int_diag b" "int_end a = int_end b"
  using assms by (auto simp: coords_def int_diag_def int_end_def)

lemma map_coords_nth:
  assumes "map coords A = map coords B" "q < length B"
  shows "coords (A ! q) = coords (B ! q)"
proof -
  from assms(1) have "length A = length B" by (rule map_eq_imp_length_eq)
  with assms show ?thesis by (metis nth_map)
qed

lemma Filter_step_coords:
  assumes st: "Filter_step A i d e j = (A1, e1, brk)"
    and ne: "d \<noteq> int_diag (A ! j)"
  shows "map coords A1 = map coords A \<and> e1 = e"
  using st ne unfolding Filter_step_def int_diag_def
  by (auto simp: Let_def split: if_splits prod.splits dest: resolve_coords)

lemma Filter_scan_coords:
  assumes N: "length A0 = N" and srt: "sorted_Start2 A0" and i: "i < N"
    and ap: "\<And>q. i < q \<Longrightarrow> q < N \<Longrightarrow> apart (A0 ! i) (A0 ! q)"
    and c0: "map coords A = map coords A0"
  shows "\<exists>B. Filter_scan N i (int_diag (A ! i)) A (int_end (A ! i)) (i + 1) = Some B
           \<and> map coords B = map coords A0"
proof -
  have di: "int_diag (A ! i) = int_diag (A0 ! i)"
    and e0: "int_end (A ! i) = int_end (A0 ! i)"
    using coords_eqD[OF map_coords_nth[OF c0, of i]] i N by auto
  show ?thesis
    unfolding di e0
  proof (rule Filter_scan_rule[where Inv = "\<lambda>A e j. map coords A = map coords A0
            \<and> e = int_end (A0 ! i) \<and> i < j"])
    show "map coords A = map coords A0 \<and> int_end (A0 ! i) = int_end (A0 ! i) \<and> i < i + 1"
      using c0 by simp
  next
    fix A e j
    assume inv: "map coords A = map coords A0 \<and> e = int_end (A0 ! i) \<and> i < j"
      and j: "j < N"
    note ci = coords_eqD[OF map_coords_nth[of A A0 i]]
    note cj = coords_eqD[OF map_coords_nth[of A A0 j]]
    show "Start2 (A ! i) \<le> Start2 (A ! j)"
      using sorted_Start2_nth[OF srt, of i j] ci(2) cj(2) inv i j N by simp
  next
    fix A e j A1 e1 brk
    assume inv: "map coords A = map coords A0 \<and> e = int_end (A0 ! i) \<and> i < j"
      and j: "j < N" and c: "Start2 (A ! j) \<le> e"
      and st: "Filter_step A i (int_diag (A0 ! i)) e j = (A1, e1, brk)"
    note cj = coords_eqD[OF map_coords_nth[of A A0 j]]
    have "Start2 (A0 ! j) \<le> int_end (A0 ! i)"
      using c cj(2) inv j N by simp
    with ap[of j] inv j have "int_diag (A0 ! i) \<noteq> int_diag (A0 ! j)"
      by (auto simp: apart_def)
    then have ne: "int_diag (A0 ! i) \<noteq> int_diag (A ! j)"
      using cj(4) inv j N by simp
    from Filter_step_coords[OF st ne] inv
    show "(brk \<longrightarrow> map coords A1 = map coords A0) \<and>
          (\<not> brk \<longrightarrow> map coords A1 = map coords A0 \<and> e1 = int_end (A0 ! i) \<and> i < j + 1)"
      by simp
  qed simp
qed

text \<open>On matches that are pairwise apart the scan changes no coordinate.\<close>

lemma Filter_marked_coords:
  assumes srt: "sorted_Start2 A" and ap: "sorted_wrt apart A"
  shows "\<exists>B. Filter_marked A = Some B \<and> map coords B = map coords A"
proof -
  let ?A1 = "map (\<lambda>m. m\<lparr>Good := True\<rparr>) A"
  let ?N = "length A"
  have c1: "map coords ?A1 = map coords A" by (simp add: coords_def)
  have "\<exists>B. fold (\<lambda>i r. Option.bind r (Filter_outer ?N i)) [0..<?N - 1] (Some ?A1) = Some B
          \<and> map coords B = map coords A"
  proof (rule fold_upt_rule[where P = "\<lambda>k r. \<exists>B. r = Some B \<and> map coords B = map coords A"])
    show "\<exists>B. Some ?A1 = Some B \<and> map coords B = map coords A" using c1 by blast
  next
    fix k r assume k: "k < ?N - 1" and "\<exists>B. r = Some B \<and> map coords B = map coords A"
    then obtain B where r: "r = Some B" and c: "map coords B = map coords A" by blast
    from k have kN: "k < ?N" by simp
    have "apart (A ! k) (A ! q)" if "k < q" "q < ?N" for q
      using ap that by (simp add: sorted_wrt_iff_nth_less)
    from Filter_scan_coords[OF refl srt kN this c]
    have "\<exists>C. Filter_outer ?N k B = Some C \<and> map coords C = map coords A"
      using c by (cases "Good (B ! k)") (auto simp: Filter_outer_def int_diag_def int_end_def)
    then show "\<exists>B. Option.bind r (Filter_outer ?N k) = Some B \<and> map coords B = map coords A"
      using r by simp
  qed simp
  then show ?thesis by (simp add: Filter_marked_def)
qed

lemma Filter_Matches_subseq:
  assumes "Filter_marked A = Some B" "map coords B = map coords A"
  shows "\<exists>C. Filter_Matches A = Some C \<and> subseq (map coords C) (map coords A)"
proof -
  have "map coords (map (\<lambda>m. m\<lparr>Good := False\<rparr>) (filter Good B)) = map coords (filter Good B)"
    by (simp add: coords_def)
  also have "subseq \<dots> (map coords B)"
    by (intro subseq_map subseq_filter_left)
  finally show ?thesis using assms by (simp add: Filter_Matches_def)
qed

subsection \<open>The claims about the filter\<close>

text \<open>The order \<^verbatim>\<open>qsort\<close> establishes with \<open>By_Start2\<close> before the filter runs.\<close>

definition sorted_By_Start2 :: "Match_t list \<Rightarrow> bool" where
  "sorted_By_Start2 A = sorted_wrt (\<lambda>x y. By_Start2 x y \<le> 0) A"


text \<open>Two half-open query ranges \<open>[Start2, Start2 + Len)\<close> overlap.\<close>

definition query_overlap :: "Match_t \<Rightarrow> Match_t \<Rightarrow> bool" where
  "query_overlap a b \<longleftrightarrow> Start2 a < Start2 b + Len b \<and> Start2 b < Start2 a + Len a"

text \<open>
  Claim C3 says that the filter leaves every surviving match with both flags cleared.
  The code clears \<open>Good\<close> only (lines 288--289). Counterexample: two matches of equal
  length 10 with the same \<open>Start1\<close> whose overlap 5 reaches half the length; the second
  is marked tentative (line 236), both survive, and the second leaves the filter with
  \<open>Tentative\<close> still set.
\<close>

theorem C3_tentative_not_cleared:
  "map_option (map Tentative) (Filter_Matches [mk_Match 0 0 10, mk_Match 0 5 10])
     = Some [False, True]"
  by code_simp

text \<open>
  Claim C3, amended: when the filter returns, every surviving match has \<open>Good\<close> cleared,
  and its \<open>Tentative\<close> flag is the one the scan left on it (it is not reset).
\<close>

theorem C3_Good_cleared:
  assumes "Filter_Matches A = Some B"
  shows "map Good B = replicate (length B) False
         \<and> (\<exists>M. Filter_marked A = Some M \<and> map Tentative B = map Tentative (filter Good M))"
  using assms
  by (auto simp: Filter_Matches_def map_replicate_const comp_def intro!: nth_equalityI)

theorem C3_Good_cleared_witness:
  "Filter_Matches [mk_Match 0 0 10, mk_Match 0 5 10]
     = Some [mk_Match 0 0 10, (mk_Match 0 5 10)\<lparr>Tentative := True\<rparr>]
   \<and> map Good [mk_Match 0 0 10, (mk_Match 0 5 10)\<lparr>Tentative := True\<rparr>] = [False, False]"
proof -
  have e: "Filter_Matches [mk_Match 0 0 10, mk_Match 0 5 10]
     = Some [mk_Match 0 0 10, (mk_Match 0 5 10)\<lparr>Tentative := True\<rparr>]"
    by code_simp
  from C3_Good_cleared[OF e] e show ?thesis by simp
qed

text \<open>
  Claim C4 says that a second run of the filter on its own output changes nothing.
  Counterexample, sorted by \<open>By_Start2\<close>: the first run merges \<open>(9, 9, 10)\<close> into
  \<open>(0, 0, 10)\<close>, which becomes \<open>(0, 0, 19)\<close>, after \<open>(0, 8, 6)\<close> was compared with the
  shorter span and kept (overlap 2 below half of 6). In the second run the overlap of
  \<open>(0, 8, 6)\<close> with the extended span is 11, and the match is dropped.
\<close>

theorem C4_second_run_drops:
  "sorted_By_Start2 [mk_Match 0 0 10, mk_Match 0 8 6, mk_Match 9 9 10]
   \<and> map_option (map coords) (Filter_Matches [mk_Match 0 0 10, mk_Match 0 8 6, mk_Match 9 9 10])
       = Some [(0, 0, 19), (0, 8, 6)]
   \<and> map_option (map coords)
       (Option.bind (Filter_Matches [mk_Match 0 0 10, mk_Match 0 8 6, mk_Match 9 9 10])
          Filter_Matches)
       = Some [(0, 0, 19)]"
proof (intro conjI)
  show "sorted_By_Start2 [mk_Match 0 0 10, mk_Match 0 8 6, mk_Match 9 9 10]"
    by (simp add: sorted_By_Start2_def By_Start2_def mk_Match_def)
  show "map_option (map coords) (Filter_Matches [mk_Match 0 0 10, mk_Match 0 8 6, mk_Match 9 9 10])
       = Some [(0, 0, 19), (0, 8, 6)]"
    by code_simp
  show "map_option (map coords)
       (Option.bind (Filter_Matches [mk_Match 0 0 10, mk_Match 0 8 6, mk_Match 9 9 10])
          Filter_Matches)
       = Some [(0, 0, 19)]"
    by code_simp
qed

text \<open>
  Claim C4, amended: for matches sorted by \<open>Start2\<close>, a second run on the filter's own
  output returns, extends no length and adds no match: its output is, coordinate for
  coordinate, a subsequence of its input. It may still drop matches.
\<close>

theorem C4_second_run_subseq:
  assumes "sorted_Start2 A"
  shows "\<exists>B C. Filter_Matches A = Some B \<and> Filter_Matches B = Some C
           \<and> subseq (map coords C) (map coords B)"
proof -
  from Filter_Matches_post[OF assms] obtain B where B: "Filter_Matches A = Some B"
    "sorted_Start2 B" "sorted_wrt apart B" by blast
  from Filter_marked_coords[OF B(2,3)] obtain M where "Filter_marked B = Some M"
    "map coords M = map coords B" by blast
  from Filter_Matches_subseq[OF this] B(1) show ?thesis by blast
qed

theorem C4_second_run_subseq_witness:
  "sorted_Start2 [mk_Match 0 0 10, mk_Match 0 8 6, mk_Match 9 9 10]
   \<and> map_option (map coords) (Filter_Matches [mk_Match 0 0 10, mk_Match 0 8 6, mk_Match 9 9 10])
       = Some [(0, 0, 19), (0, 8, 6)]
   \<and> map_option (map coords)
       (Option.bind (Filter_Matches [mk_Match 0 0 10, mk_Match 0 8 6, mk_Match 9 9 10])
          Filter_Matches)
       = Some [(0, 0, 19)]
   \<and> subseq [(0, 0, 19)] [(0, 0, 19), (0, 8, 6) :: int \<times> int \<times> int]"
proof -
  let ?A = "[mk_Match 0 0 10, mk_Match 0 8 6, mk_Match 9 9 10]"
  have s: "sorted_Start2 ?A"
    by (simp add: sorted_Start2_def mk_Match_def)
  have e1: "map_option (map coords) (Filter_Matches ?A) = Some [(0, 0, 19), (0, 8, 6)]"
    by code_simp
  have e2: "map_option (map coords) (Option.bind (Filter_Matches ?A) Filter_Matches)
       = Some [(0, 0, 19)]"
    by code_simp
  from C4_second_run_subseq[OF s] obtain B C where "Filter_Matches ?A = Some B"
    "Filter_Matches B = Some C" "subseq (map coords C) (map coords B)" by blast
  with e1 e2 have "subseq [(0, 0, 19)] [(0, 0, 19), (0, 8, 6) :: int \<times> int \<times> int]"
    by simp
  with s e1 e2 show ?thesis by blast
qed

text \<open>
  Claim C7: after the filter, two kept matches on the same diagonal have disjoint query
  ranges. The filter is written to bring this about: it \<^emph>\<open>combines overlapping matches
  on the same diagonal\<close> (lines 170--171). It holds the end of the match \<open>i\<close> in the \<^verbatim>\<open>int\<close>
  local \<^verbatim>\<open>i_end\<close> (line 189), while the coordinates are \<^verbatim>\<open>long\<close>. For the two matches
  \<open>(2147483640, 2147483640, 10)\<close> and \<open>(2147483645, 2147483645, 10)\<close>, both on the
  diagonal 0, the end 2147483650 of the first becomes \<open>-2147483646\<close> in \<^verbatim>\<open>i_end\<close>; the
  inner loop does not run, and both matches are kept although their query ranges
  overlap.
\<close>

theorem C7_int_end_keeps_overlap:
  "sorted_By_Start2 [mk_Match 2147483640 2147483640 10, mk_Match 2147483645 2147483645 10]
   \<and> Filter_Matches [mk_Match 2147483640 2147483640 10, mk_Match 2147483645 2147483645 10]
       = Some [mk_Match 2147483640 2147483640 10, mk_Match 2147483645 2147483645 10]
   \<and> diagonal (mk_Match 2147483640 2147483640 10) = diagonal (mk_Match 2147483645 2147483645 10)
   \<and> query_overlap (mk_Match 2147483640 2147483640 10) (mk_Match 2147483645 2147483645 10)
   \<and> int_end (mk_Match 2147483640 2147483640 10) = - 2147483646"
proof (intro conjI)
  show "sorted_By_Start2 [mk_Match 2147483640 2147483640 10, mk_Match 2147483645 2147483645 10]"
    by (simp add: sorted_By_Start2_def By_Start2_def mk_Match_def)
  show "Filter_Matches [mk_Match 2147483640 2147483640 10, mk_Match 2147483645 2147483645 10]
       = Some [mk_Match 2147483640 2147483640 10, mk_Match 2147483645 2147483645 10]"
    by code_simp
  show "diagonal (mk_Match 2147483640 2147483640 10)
      = diagonal (mk_Match 2147483645 2147483645 10)"
    by (simp add: diagonal_def mk_Match_def)
  show "query_overlap (mk_Match 2147483640 2147483640 10) (mk_Match 2147483645 2147483645 10)"
    by (simp add: query_overlap_def mk_Match_def)
  show "int_end (mk_Match 2147483640 2147483640 10) = - 2147483646"
    by (simp add: int_end_def long_to_int_def mk_Match_def)
qed

section \<open>Properties of \<^verbatim>\<open>Process_Cluster\<close>\<close>

text \<open>
  The overlap the scoring loop records for a match \<open>b\<close> chained after \<open>a\<close> (lines
  322--325), and what the links of a scored array look like.
\<close>

definition overlap_of :: "Match_t \<Rightarrow> Match_t \<Rightarrow> int" where
  "overlap_of a b = max (max 0 (Start1 a + Len a - Start1 b)) (Start2 a + Len a - Start2 b)"

definition link_ok :: "Match_t list \<Rightarrow> nat \<Rightarrow> bool" where
  "link_ok A i \<longleftrightarrow> Simple_From (A ! i) = - 1 \<or>
     (0 \<le> Simple_From (A ! i) \<and> Simple_From (A ! i) < int i
      \<and> Simple_Adj (A ! i) = overlap_of (A ! nat (Simple_From (A ! i))) (A ! i))"

definition same_base :: "Match_t \<Rightarrow> Match_t \<Rightarrow> bool" where
  "same_base a b \<longleftrightarrow> coords a = coords b \<and> Good a = Good b"

lemma same_base_refl [simp]: "same_base a a"
  by (simp add: same_base_def)

lemma same_base_trans: "same_base a b \<Longrightarrow> same_base b c \<Longrightarrow> same_base a c"
  by (simp add: same_base_def)

definition scored :: "Match_t list \<Rightarrow> nat \<Rightarrow> nat \<Rightarrow> Match_t" where
  "scored A i j = (A ! i)\<lparr>Simple_From := int j,
        Simple_Score := Simple_Score (A ! j) + Len (A ! i)
           - (overlap_of (A ! j) (A ! i)
              + \<bar>(Start2 (A ! i) - Start1 (A ! i)) - (Start2 (A ! j) - Start1 (A ! j))\<bar>),
        Simple_Adj := overlap_of (A ! j) (A ! i)\<rparr>"

lemma score_step_cases:
  "score_step i j A = A \<or> score_step i j A = A[i := scored A i j]"
  by (simp add: score_step_def Let_def overlap_of_def scored_def)

lemma score_step_spec:
  assumes "i < length A" "j < i"
  shows "length (score_step i j A) = length A"
    and "\<And>q. q \<noteq> i \<Longrightarrow> score_step i j A ! q = A ! q"
    and "same_base (score_step i j A ! i) (A ! i)"
    and "link_ok A i \<Longrightarrow> link_ok (score_step i j A) i"
proof -
  show "length (score_step i j A) = length A"
    using score_step_cases[of i j A] by auto
  show "score_step i j A ! q = A ! q" if "q \<noteq> i" for q
    using score_step_cases[of i j A] that by auto
  show "same_base (score_step i j A ! i) (A ! i)"
    using score_step_cases[of i j A] assms by (auto simp: same_base_def coords_def scored_def)
  show "link_ok (score_step i j A) i" if "link_ok A i"
    using score_step_cases[of i j A]
  proof
    assume "score_step i j A = A"
    with that show ?thesis by simp
  next
    assume e: "score_step i j A = A[i := scored A i j]"
    have "overlap_of (A ! j) (scored A i j) = overlap_of (A ! j) (A ! i)"
      by (simp add: overlap_of_def scored_def)
    then show ?thesis
      unfolding e link_ok_def using assms by (simp add: scored_def)
  qed
qed

lemma score_match_spec:
  assumes "i < length A"
  shows "length (score_match i A) = length A
     \<and> (\<forall>q. q \<noteq> i \<longrightarrow> score_match i A ! q = A ! q)
     \<and> same_base (score_match i A ! i) (A ! i)
     \<and> link_ok (score_match i A) i"
  unfolding score_match_def
proof (rule fold_upt_rule[where P = "\<lambda>k B. length B = length A
     \<and> (\<forall>q. q \<noteq> i \<longrightarrow> B ! q = A ! q) \<and> same_base (B ! i) (A ! i) \<and> link_ok B i"])
  let ?A0 = "A[i := (A ! i)\<lparr>Simple_Score := Len (A ! i), Simple_Adj := 0, Simple_From := - 1\<rparr>]"
  show "length ?A0 = length A \<and> (\<forall>q. q \<noteq> i \<longrightarrow> ?A0 ! q = A ! q)
     \<and> same_base (?A0 ! i) (A ! i) \<and> link_ok ?A0 i"
    using assms by (simp add: same_base_def coords_def link_ok_def)
next
  fix k B
  assume k: "k < i" and inv: "length B = length A
     \<and> (\<forall>q. q \<noteq> i \<longrightarrow> B ! q = A ! q) \<and> same_base (B ! i) (A ! i) \<and> link_ok B i"
  with assms have iB: "i < length B" by simp
  note sp = score_step_spec[OF iB k]
  show "length (score_step i k B) = length A
     \<and> (\<forall>q. q \<noteq> i \<longrightarrow> score_step i k B ! q = A ! q)
     \<and> same_base (score_step i k B ! i) (A ! i) \<and> link_ok (score_step i k B) i"
    using sp inv same_base_trans[OF sp(3)] by simp
qed simp

lemma link_ok_cong:
  assumes "link_ok A q" "B ! q = A ! q" "\<And>r. r < q \<Longrightarrow> B ! r = A ! r"
  shows "link_ok B q"
proof -
  have "B ! nat (Simple_From (A ! q)) = A ! nat (Simple_From (A ! q))"
    if "0 \<le> Simple_From (A ! q)" "Simple_From (A ! q) < int q"
    using that assms(3)[of "nat (Simple_From (A ! q))"] by simp
  with assms(1,2) show ?thesis by (auto simp: link_ok_def)
qed

lemma score_all_spec:
  assumes "N \<le> length A"
  shows "length (score_all N A) = length A
     \<and> (\<forall>q < length A. same_base (score_all N A ! q) (A ! q))
     \<and> (\<forall>q < N. link_ok (score_all N A) q)"
  unfolding score_all_def
proof (rule fold_upt_rule[where P = "\<lambda>k B. length B = length A
     \<and> (\<forall>q < length A. same_base (B ! q) (A ! q)) \<and> (\<forall>q < k. link_ok B q)"])
  fix k B
  assume k: "k < N" and inv: "length B = length A
     \<and> (\<forall>q < length A. same_base (B ! q) (A ! q)) \<and> (\<forall>q < k. link_ok B q)"
  with assms have kB: "k < length B" by simp
  note sp = score_match_spec[OF kB]
  have "same_base (score_match k B ! q) (A ! q)" if "q < length A" for q
  proof (cases "q = k")
    case True
    with sp inv that show ?thesis by (blast intro: same_base_trans)
  next
    case False
    with sp inv that show ?thesis by simp
  qed
  moreover have "link_ok (score_match k B) q" if "q < Suc k" for q
  proof (cases "q = k")
    case True
    with sp show ?thesis by simp
  next
    case False
    with that have "q < k" by simp
    with inv have "link_ok B q" by simp
    then show ?thesis
    proof (rule link_ok_cong)
      show "score_match k B ! q = B ! q" using sp False by simp
      show "score_match k B ! r = B ! r" if "r < q" for r
        using sp that \<open>q < k\<close> by simp
    qed
  qed
  ultimately show "length (score_match k B) = length A
     \<and> (\<forall>q < length A. same_base (score_match k B ! q) (A ! q))
     \<and> (\<forall>q < Suc k. link_ok (score_match k B) q)"
    using sp inv by simp
qed simp_all

lemma find_best_less:
  assumes "0 < N"
  shows "find_best N A < N"
proof -
  have "fold (\<lambda>i best. if Simple_Score (A ! i) > Simple_Score (A ! best) then i else best)
       [1..<N] 0 < N"
    by (rule fold_upt_rule[where P = "\<lambda>k b. b < k"]) (use assms in auto)
  then show ?thesis by (simp add: find_best_def)
qed


definition links_back :: "Match_t list \<Rightarrow> bool" where
  "links_back A \<longleftrightarrow> (\<forall>q < length A. - 1 \<le> Simple_From (A ! q) \<and> Simple_From (A ! q) < int q)"

definition same_links :: "Match_t \<Rightarrow> Match_t \<Rightarrow> bool" where
  "same_links a b \<longleftrightarrow> coords a = coords b \<and> Simple_From a = Simple_From b
     \<and> Simple_Adj a = Simple_Adj b"

definition up_to_Good :: "Match_t list \<Rightarrow> Match_t list \<Rightarrow> bool" where
  "up_to_Good A B \<longleftrightarrow> length B = length A \<and>
     (\<forall>q < length A. same_links (B ! q) (A ! q) \<and> (Good (A ! q) \<longrightarrow> Good (B ! q)))"

definition chained :: "Match_t list \<Rightarrow> int \<Rightarrow> bool" where
  "chained A i \<longleftrightarrow> (\<forall>q < length A. Good (A ! q) \<longrightarrow> i < int q \<and>
     ((Simple_From (A ! q) = i \<and> (\<forall>r. i < int r \<longrightarrow> r < q \<longrightarrow> \<not> Good (A ! r)))
      \<or> (i < Simple_From (A ! q) \<and> Simple_From (A ! q) < int q
          \<and> Good (A ! nat (Simple_From (A ! q)))
          \<and> (\<forall>r. Simple_From (A ! q) < int r \<longrightarrow> r < q \<longrightarrow> \<not> Good (A ! r)))))"

lemma up_to_Good_refl: "up_to_Good A A"
  by (simp add: up_to_Good_def same_links_def)

lemma up_to_Good_trans: "up_to_Good A B \<Longrightarrow> up_to_Good B C \<Longrightarrow> up_to_Good A C"
  by (simp add: up_to_Good_def same_links_def)

lemma up_to_Good_set_Good: "up_to_Good A (set_Good A i True)"
  by (simp add: up_to_Good_def same_links_def coords_def)

lemma up_to_Good_From:
  "up_to_Good A B \<Longrightarrow> q < length A \<Longrightarrow> Simple_From (B ! q) = Simple_From (A ! q)"
  by (simp add: up_to_Good_def same_links_def)

lemma links_back_up_to_Good: "up_to_Good A B \<Longrightarrow> links_back A \<Longrightarrow> links_back B"
  by (simp add: links_back_def up_to_Good_def same_links_def)

lemma chained_step:
  assumes ch: "chained A i" and i: "0 \<le> i" "nat i < length A"
    and lb: "- 1 \<le> Simple_From (A ! nat i)" "Simple_From (A ! nat i) < i"
    and un: "\<forall>q < length A. int q \<le> i \<longrightarrow> \<not> Good (A ! q)"
  shows "chained (set_Good A (nat i) True) (Simple_From (A ! nat i))"
  unfolding chained_def
proof (intro allI impI)
  let ?B = "set_Good A (nat i) True"
  let ?i' = "Simple_From (A ! nat i)"
  fix q assume q: "q < length ?B" and g: "Good (?B ! q)"
  have nb: "\<not> Good (?B ! r)" if "r < nat i" for r
  proof -
    from that i have "int r \<le> i" "r < length A" "r \<noteq> nat i" by auto
    with un show ?thesis by simp
  qed
  show "?i' < int q \<and>
     ((Simple_From (?B ! q) = ?i' \<and> (\<forall>r. ?i' < int r \<longrightarrow> r < q \<longrightarrow> \<not> Good (?B ! r)))
      \<or> (?i' < Simple_From (?B ! q) \<and> Simple_From (?B ! q) < int q
          \<and> Good (?B ! nat (Simple_From (?B ! q)))
          \<and> (\<forall>r. Simple_From (?B ! q) < int r \<longrightarrow> r < q \<longrightarrow> \<not> Good (?B ! r))))"
  proof (cases "q = nat i")
    case True
    with i lb q nb show ?thesis by auto
  next
    case False
    with g q have gA: "Good (A ! q)" by simp
    with ch q have c: "i < int q" and d: "(Simple_From (A ! q) = i \<and> (\<forall>r. i < int r \<longrightarrow> r < q \<longrightarrow> \<not> Good (A ! r)))
      \<or> (i < Simple_From (A ! q) \<and> Simple_From (A ! q) < int q
          \<and> Good (A ! nat (Simple_From (A ! q)))
          \<and> (\<forall>r. Simple_From (A ! q) < int r \<longrightarrow> r < q \<longrightarrow> \<not> Good (A ! r)))"
      by (auto simp: chained_def)
    from d show ?thesis
    proof
      assume a: "Simple_From (A ! q) = i \<and> (\<forall>r. i < int r \<longrightarrow> r < q \<longrightarrow> \<not> Good (A ! r))"
      have "\<not> Good (?B ! r)" if "i < int r" "r < q" for r
      proof -
        from that i have "r \<noteq> nat i" by auto
        with that a q show ?thesis by simp
      qed
      with a c lb i q False show ?thesis by auto
    next
      assume a: "i < Simple_From (A ! q) \<and> Simple_From (A ! q) < int q
          \<and> Good (A ! nat (Simple_From (A ! q)))
          \<and> (\<forall>r. Simple_From (A ! q) < int r \<longrightarrow> r < q \<longrightarrow> \<not> Good (A ! r))"
      have "\<not> Good (?B ! r)" if "Simple_From (A ! q) < int r" "r < q" for r
      proof -
        from that a i have "r \<noteq> nat i" by auto
        with that a q show ?thesis by simp
      qed
      moreover have "Good (?B ! nat (Simple_From (A ! q)))"
      proof -
        from a q have "nat (Simple_From (A ! q)) < length A" by auto
        with a show ?thesis by simp
      qed
      ultimately show ?thesis using a c lb i q False by auto
    qed
  qed
qed


definition unmarked_to :: "Match_t list \<Rightarrow> int \<Rightarrow> bool" where
  "unmarked_to A i \<longleftrightarrow> (\<forall>q < length A. int q \<le> i \<longrightarrow> \<not> Good (A ! q))"

lemma mark_chain_spec:
  assumes "length A = N" "links_back A" "- 1 \<le> i" "i < int N"
  shows "\<exists>A' t h l. mark_chain N A i tot hi lo = Some (A', t, h, l) \<and> up_to_Good A A'
           \<and> (0 \<le> i \<longrightarrow> Good (A' ! nat i))
           \<and> (chained A i \<and> unmarked_to A i \<longrightarrow> chained A' (- 1))"
  using assms
proof (induction "nat (i + 1)" arbitrary: A i tot hi lo rule: less_induct)
  case less
  show ?case
  proof (cases "0 \<le> i")
    case False
    with less.prems have "i = - 1" by simp
    then have "mark_chain N A i tot hi lo = Some (A, tot, hi, lo)"
      by (subst mark_chain.simps) simp
    with \<open>i = - 1\<close> show ?thesis by (simp add: up_to_Good_refl)
  next
    case True
    let ?A1 = "set_Good A (nat i) True"
    let ?i' = "Simple_From (A ! nat i)"
    from True less.prems have iN: "nat i < N" and iA: "nat i < length A" by auto
    from less.prems(2) iA have lb: "- 1 \<le> ?i'" "?i' < i"
      using True by (auto simp: links_back_def)
    have u1: "up_to_Good A ?A1" by (rule up_to_Good_set_Good)
    have F: "Simple_From (?A1 ! nat i) = ?i'" using iA by simp
    define t1 where "t1 = tot + Len (?A1 ! nat i)"
    define h1 where "h1 = (if Start1 (?A1 ! nat i) + Len (?A1 ! nat i) > hi
                      then Start1 (?A1 ! nat i) + Len (?A1 ! nat i) else hi)"
    define l1 where "l1 = (if Start1 (?A1 ! nat i) < lo then Start1 (?A1 ! nat i) else lo)"
    have eq: "mark_chain N A i tot hi lo = mark_chain N ?A1 ?i' t1 h1 l1"
      unfolding t1_def h1_def l1_def
      by (subst mark_chain.simps) (simp add: True iN F Let_def)
    have "nat (?i' + 1) < nat (i + 1)" using lb True by simp
    from less.hyps[OF this, of ?A1 t1 h1 l1] less.prems(1) links_back_up_to_Good[OF u1 less.prems(2)]
      lb less.prems(4)
    obtain A' t h l where r: "mark_chain N ?A1 ?i' t1 h1 l1 = Some (A', t, h, l)"
      and u2: "up_to_Good ?A1 A'"
      and c2: "chained ?A1 ?i' \<and> unmarked_to ?A1 ?i' \<longrightarrow> chained A' (- 1)"
      by auto
    have g: "Good (A' ! nat i)"
      using u2 iA by (simp add: up_to_Good_def)
    have "chained A' (- 1)" if "chained A i" "unmarked_to A i"
    proof -
      have "chained ?A1 ?i'"
        using chained_step[OF that(1) True iA lb] that(2) by (simp add: unmarked_to_def)
      moreover have "unmarked_to ?A1 ?i'"
        using that(2) lb iA unfolding unmarked_to_def by auto
      ultimately show ?thesis using c2 by simp
    qed
    with eq r up_to_Good_trans[OF u1 u2] g show ?thesis by simp
  qed
qed


lemma link_ok_links_back:
  assumes "\<forall>q < length A. link_ok A q"
  shows "links_back A"
  using assms unfolding links_back_def link_ok_def by fastforce

lemma link_ok_up_to_Good:
  assumes "up_to_Good A B" "link_ok A q" "q < length A"
  shows "link_ok B q"
proof -
  have s: "same_links (B ! r) (A ! r)" if "r < length A" for r
    using assms(1) that by (simp add: up_to_Good_def)
  have ov: "overlap_of (B ! r) (B ! q) = overlap_of (A ! r) (A ! q)" if "r < length A" for r
    using s[OF that] s[OF assms(3)] by (simp add: same_links_def coords_def overlap_of_def)
  from assms(2) show ?thesis
    unfolding link_ok_def
  proof
    assume "Simple_From (A ! q) = - 1"
    with s[OF assms(3)] show "Simple_From (B ! q) = - 1 \<or>
      (0 \<le> Simple_From (B ! q) \<and> Simple_From (B ! q) < int q
       \<and> Simple_Adj (B ! q) = overlap_of (B ! nat (Simple_From (B ! q))) (B ! q))"
      by (simp add: same_links_def)
  next
    assume a: "0 \<le> Simple_From (A ! q) \<and> Simple_From (A ! q) < int q
       \<and> Simple_Adj (A ! q) = overlap_of (A ! nat (Simple_From (A ! q))) (A ! q)"
    then have "nat (Simple_From (A ! q)) < length A" using assms(3) by auto
    from ov[OF this] a s[OF assms(3)]
    show "Simple_From (B ! q) = - 1 \<or>
      (0 \<le> Simple_From (B ! q) \<and> Simple_From (B ! q) < int q
       \<and> Simple_Adj (B ! q) = overlap_of (B ! nat (Simple_From (B ! q))) (B ! q))"
      by (simp add: same_links_def)
  qed
qed

text \<open>What one selection does to a non-empty cluster.\<close>

lemma select_chain_spec:
  assumes "A \<noteq> []"
  shows "\<exists>A2 score. select_chain cfg A = Some (A2, score) \<and> length A2 = length A
     \<and> map coords A2 = map coords A
     \<and> (\<exists>b < length A. Good (A2 ! b))
     \<and> ((\<forall>m \<in> set A. \<not> Good m) \<longrightarrow> chained A2 (- 1) \<and> (\<forall>q < length A. link_ok A2 q))"
proof -
  let ?N = "length A"
  let ?A1 = "score_all ?N A"
  let ?b = "find_best ?N ?A1"
  from assms have N: "0 < ?N" by simp
  from score_all_spec[of ?N A]
  have l1: "length ?A1 = ?N" and sb: "\<forall>q < ?N. same_base (?A1 ! q) (A ! q)"
    and lk: "\<forall>q < length ?A1. link_ok ?A1 q" by auto
  have b: "?b < ?N" using find_best_less[OF N] .
  from mark_chain_spec[OF l1 link_ok_links_back[OF lk], of "int ?b" 0 LONG_MIN LONG_MAX] b
  obtain A2 t h l where m: "mark_chain ?N ?A1 (int ?b) 0 LONG_MIN LONG_MAX = Some (A2, t, h, l)"
    and u: "up_to_Good ?A1 A2" and g: "Good (A2 ! ?b)"
    and c: "chained ?A1 (int ?b) \<and> unmarked_to ?A1 (int ?b) \<longrightarrow> chained A2 (- 1)"
    by auto
  from u l1 have l2: "length A2 = ?N" by (simp add: up_to_Good_def)
  have co: "coords (A2 ! q) = coords (A ! q)" if "q < ?N" for q
    using u sb l1 that by (simp add: up_to_Good_def same_links_def same_base_def)
  have "map coords A2 = map coords A"
    using l2 co by (intro nth_equalityI) auto
  moreover have "chained A2 (- 1) \<and> (\<forall>q < ?N. link_ok A2 q)" if "\<forall>m \<in> set A. \<not> Good m"
  proof -
    have ng: "\<not> Good (?A1 ! q)" if "q < ?N" for q
      using sb that \<open>\<forall>m \<in> set A. \<not> Good m\<close> by (auto simp: same_base_def)
    then have "chained ?A1 (int ?b)" "unmarked_to ?A1 (int ?b)"
      using l1 by (auto simp: chained_def unmarked_to_def)
    with c have "chained A2 (- 1)" by simp
    moreover have "link_ok A2 q" if "q < ?N" for q
      using link_ok_up_to_Good[OF u, of q] lk l1 that by simp
    ultimately show ?thesis by simp
  qed
  ultimately show ?thesis
    using m l2 g b by (auto simp: select_chain_def Let_def)
qed

lemma length_filter_not_Good:
  assumes "b < length A" "Good (A ! b)"
  shows "length (filter (\<lambda>m. \<not> Good m) A) < length A"
proof -
  from assms have "A ! b \<in> set A" by simp
  with assms(2) show ?thesis by (intro length_filter_less[of "A ! b"]) auto
qed

text \<open>An invariant rule for the loop of \<open>Process_Cluster\<close>.\<close>

lemma Process_Cluster_loop_rule:
  assumes ne: "A \<noteq> []" and init: "Inv A label ct out tr"
    and step: "\<And>A label ct out tr A2 score A3 label1 ct1 out1 tr1.
        A \<noteq> [] \<Longrightarrow> Inv A label ct out tr \<Longrightarrow> select_chain cfg A = Some (A2, score) \<Longrightarrow>
        finish_pass cfg (length A) label ct out tr A2 score = (A3, label1, ct1, out1, tr1) \<Longrightarrow>
        (A3 \<noteq> [] \<longrightarrow> Inv A3 label1 ct1 out1 tr1) \<and> (A3 = [] \<longrightarrow> Post (ct1, out1, tr1))"
  shows "\<exists>r. Process_Cluster_loop cfg A label ct out tr = Some r \<and> Post r"
  using ne init
proof (induction "length A" arbitrary: A label ct out tr rule: less_induct)
  case less
  from select_chain_spec[OF less.prems(1), of cfg]
  obtain A2 score b where sel: "select_chain cfg A = Some (A2, score)"
    and len: "length A2 = length A" and b: "b < length A" "Good (A2 ! b)" by auto
  obtain A3 label1 ct1 out1 tr1
    where fin: "finish_pass cfg (length A) label ct out tr A2 score = (A3, label1, ct1, out1, tr1)"
    by (metis prod_cases5)
  have A3: "A3 = filter (\<lambda>m. \<not> Good m) A2"
    using fin by (auto simp: finish_pass_def split: if_splits)
  have dec: "length A3 < length A"
    unfolding A3 using length_filter_not_Good[of b A2] b len by simp
  note st = step[OF less.prems sel fin]
  have eq: "Process_Cluster_loop cfg A label ct out tr =
      (if length A3 > 0 then Process_Cluster_loop cfg A3 label1 ct1 out1 tr1
       else Some (ct1, out1, tr1))"
    by (subst Process_Cluster_loop.simps) (simp add: sel fin)
  show ?case
  proof (cases "A3 = []")
    case True
    with eq st show ?thesis by simp
  next
    case False
    with st have "Inv A3 label1 ct1 out1 tr1" by simp
    from less.hyps[OF dec False this] eq False show ?thesis by simp
  qed
qed


text \<open>The lines of a chain, from the list of its matches.\<close>

definition emit_line :: "Match_t option \<Rightarrow> Match_t \<Rightarrow> out_line" where
  "emit_line p m =
     (case p of
        None \<Rightarrow> Match_line (Start1 m) (Start2 m) (Len m) None None
      | Some a \<Rightarrow>
          Match_line (Start1 m + Simple_Adj m) (Start2 m + Simple_Adj m) (Len m - Simple_Adj m)
            (if Simple_Adj m = 0 then None else Some (- Simple_Adj m))
            (Some (Start1 m + Simple_Adj m - Start1 a - Len a,
                   Start2 m + Simple_Adj m - Start2 a - Len a)))"

fun emit_from :: "Match_t option \<Rightarrow> Match_t list \<Rightarrow> out_line list" where
  "emit_from p [] = []"
| "emit_from p (m # ms) = emit_line p m # emit_from (Some m) ms"

lemma emit_from_snoc:
  "emit_from p (xs @ [x]) = emit_from p xs @ [emit_line (if xs = [] then p else Some (last xs)) x]"
  by (induction xs arbitrary: p) auto

lemma emit_step_Good:
  "Good (A ! i) \<Longrightarrow> emit_step A i (prev, out) =
     (int i, out @ [emit_line (if prev = - 1 then None else Some (A ! nat prev)) (A ! i)])"
  by (simp add: emit_step_def emit_line_def Let_def)

lemma emit_step_not_Good: "\<not> Good (A ! i) \<Longrightarrow> emit_step A i s = s"
  by (simp add: emit_step_def split: prod.splits)

lemma emit_chain_filter:
  assumes "N \<le> length A"
  shows "emit_chain N A = emit_from None (filter Good (take N A))"
proof -
  let ?G = "\<lambda>k. filter Good (take k A)"
  have "case fold (emit_step A) [0..<N] (- 1, []) of (prev, out) \<Rightarrow>
          out = emit_from None (?G N) \<and> (?G N = [] \<longrightarrow> prev = - 1)
          \<and> (?G N \<noteq> [] \<longrightarrow> 0 \<le> prev \<and> A ! nat prev = last (?G N))"
  proof (rule fold_upt_rule[where P = "\<lambda>k s. case s of (prev, out) \<Rightarrow>
          out = emit_from None (?G k) \<and> (?G k = [] \<longrightarrow> prev = - 1)
          \<and> (?G k \<noteq> [] \<longrightarrow> 0 \<le> prev \<and> A ! nat prev = last (?G k))"])
    fix k s
    assume k: "k < N" and inv: "case s of (prev, out) \<Rightarrow>
          out = emit_from None (?G k) \<and> (?G k = [] \<longrightarrow> prev = - 1)
          \<and> (?G k \<noteq> [] \<longrightarrow> 0 \<le> prev \<and> A ! nat prev = last (?G k))"
    obtain prev out where s: "s = (prev, out)" by (cases s)
    from k assms have tk: "take (Suc k) A = take k A @ [A ! k]"
      by (simp add: take_Suc_conv_app_nth)
    show "case emit_step A k s of (prev, out) \<Rightarrow>
          out = emit_from None (?G (Suc k)) \<and> (?G (Suc k) = [] \<longrightarrow> prev = - 1)
          \<and> (?G (Suc k) \<noteq> [] \<longrightarrow> 0 \<le> prev \<and> A ! nat prev = last (?G (Suc k)))"
    proof (cases "Good (A ! k)")
      case False
      with inv s tk show ?thesis by (simp add: emit_step_not_Good)
    next
      case True
      have "(if prev = - 1 then None else Some (A ! nat prev))
             = (if ?G k = [] then None else Some (last (?G k)))"
        using inv s by auto
      with True inv s tk show ?thesis
        by (simp add: emit_step_Good emit_from_snoc)
    qed
  qed simp_all
  then show ?thesis by (simp add: emit_chain_def split: prod.splits)
qed

text \<open>Two consecutive matches of a chain: the later records its overlap with the earlier.\<close>

definition linked :: "Match_t \<Rightarrow> Match_t \<Rightarrow> bool" where
  "linked a b \<longleftrightarrow> Simple_Adj b = overlap_of a b"

lemma filter_take_empty:
  assumes "k \<le> length xs" "\<And>r. r < k \<Longrightarrow> \<not> P (xs ! r)"
  shows "filter P (take k xs) = []"
  using assms by (auto simp: filter_empty_conv in_set_conv_nth)

lemma last_filter_take:
  assumes "f < k" "k \<le> length xs" "P (xs ! f)" "\<And>r. f < r \<Longrightarrow> r < k \<Longrightarrow> \<not> P (xs ! r)"
  shows "filter P (take k xs) \<noteq> [] \<and> last (filter P (take k xs)) = xs ! f"
  using assms
proof (induction k)
  case 0
  then show ?case by simp
next
  case (Suc k)
  then have tk: "take (Suc k) xs = take k xs @ [xs ! k]"
    by (simp add: take_Suc_conv_app_nth)
  show ?case
  proof (cases "f = k")
    case True
    with Suc.prems tk show ?thesis by simp
  next
    case False
    with Suc.prems have fk: "f < k" by simp
    with Suc.prems have "\<not> P (xs ! k)" by simp
    moreover from Suc.IH[OF fk] Suc.prems
    have "filter P (take k xs) \<noteq> [] \<and> last (filter P (take k xs)) = xs ! f" by simp
    ultimately show ?thesis using tk by simp
  qed
qed

lemma chain_linked:
  assumes ch: "chained A (- 1)" and lk: "\<forall>q < length A. link_ok A q"
  shows "successively linked (filter Good A)"
proof -
  have "successively linked (filter Good (take (length A) A))"
  proof (rule fold_upt_rule[where P = "\<lambda>k (u::unit). successively linked (filter Good (take k A))"
        and f = "\<lambda>k u. u" and a = "()" and m = 0, simplified])
    fix k
    assume k: "k < length A" and ih: "successively linked (filter Good (take k A))"
    have tk: "take (Suc k) A = take k A @ [A ! k]"
      using k by (simp add: take_Suc_conv_app_nth)
    show "successively linked (filter Good (take (Suc k) A))"
    proof (cases "Good (A ! k)")
      case False
      with ih tk show ?thesis by simp
    next
      case True
      with ch k have d: "(Simple_From (A ! k) = - 1 \<and> (\<forall>r. - 1 < int r \<longrightarrow> r < k \<longrightarrow> \<not> Good (A ! r)))
        \<or> (- 1 < Simple_From (A ! k) \<and> Simple_From (A ! k) < int k
            \<and> Good (A ! nat (Simple_From (A ! k)))
            \<and> (\<forall>r. Simple_From (A ! k) < int r \<longrightarrow> r < k \<longrightarrow> \<not> Good (A ! r)))"
        by (auto simp: chained_def)
      from d show ?thesis
      proof
        assume "Simple_From (A ! k) = - 1 \<and> (\<forall>r. - 1 < int r \<longrightarrow> r < k \<longrightarrow> \<not> Good (A ! r))"
        then have "filter Good (take k A) = []"
          using k by (intro filter_take_empty) auto
        with tk True show ?thesis by simp
      next
        assume a: "- 1 < Simple_From (A ! k) \<and> Simple_From (A ! k) < int k
            \<and> Good (A ! nat (Simple_From (A ! k)))
            \<and> (\<forall>r. Simple_From (A ! k) < int r \<longrightarrow> r < k \<longrightarrow> \<not> Good (A ! r))"
        let ?f = "nat (Simple_From (A ! k))"
        have "filter Good (take k A) \<noteq> [] \<and> last (filter Good (take k A)) = A ! ?f"
          using a k by (intro last_filter_take) auto
        moreover have "linked (A ! ?f) (A ! k)"
          using lk k a by (auto simp: link_ok_def linked_def)
        ultimately show ?thesis
          using ih tk True by (simp add: successively_append_iff)
      qed
    qed
  qed
  then show ?thesis by simp
qed

definition line_apart :: "out_line \<Rightarrow> out_line \<Rightarrow> bool" where
  "line_apart a b =
     (case a of
        Match_line r q l x g \<Rightarrow>
          (case b of Match_line r' q' l' x' g' \<Rightarrow> r + l \<le> r' \<and> q + l \<le> q' | Label s \<Rightarrow> True)
      | Label s \<Rightarrow> True)"

lemma line_apart_emit:
  assumes "linked m m'"
  shows "line_apart (emit_line p m) (emit_line (Some m) m')"
  using assms
  by (auto simp: line_apart_def emit_line_def linked_def overlap_of_def split: option.splits)

lemma emit_from_apart:
  assumes "successively linked ms"
  shows "successively line_apart (emit_from p ms)"
  using assms
proof (induction ms arbitrary: p)
  case Nil
  then show ?case by simp
next
  case (Cons m ms)
  show ?case
  proof (cases ms)
    case Nil
    then show ?thesis by simp
  next
    case (Cons m' ms')
    with Cons.prems have "linked m m'" "successively linked ms" by auto
    with Cons.IH[of "Some m"] Cons show ?thesis
      by (simp add: successively_Cons line_apart_emit)
  qed
qed


text \<open>
  The chains of a trace that are printed, and the lines they are printed as: the label
  before the first chain, \<^verbatim>\<open>#\<close> before each later one.
\<close>

definition printed :: "config \<Rightarrow> chain_trace \<Rightarrow> chain_trace" where
  "printed cfg tr = filter (\<lambda>c. Min_Output_Score cfg \<le> snd c) tr"

fun render_chains :: "string \<Rightarrow> Match_t list list \<Rightarrow> out_line list" where
  "render_chains l [] = []"
| "render_chains l (c # cs) = Label l # emit_from None c @ render_chains ''#'' cs"

definition trace_coords :: "chain_trace \<Rightarrow> (int \<times> int \<times> int) list" where
  "trace_coords tr = concat (map (\<lambda>c. map coords (fst c)) tr)"

lemma render_chains_snoc:
  "render_chains l (cs @ [c]) =
     render_chains l cs @ Label (if cs = [] then l else ''#'') # emit_from None c"
  by (induction cs arbitrary: l) auto

lemma render_chains_Nil_iff: "render_chains l cs = [] \<longleftrightarrow> cs = []"
  by (cases cs) auto

lemma Process_Cluster_trace_spec:
  assumes "A \<noteq> []"
  shows "\<exists>ct out tr. Process_Cluster_trace cfg A label = Some (ct, out, tr)
     \<and> mset (trace_coords tr) = mset (map coords A)
     \<and> out = render_chains label (map fst (printed cfg tr))
     \<and> ct = int (length (printed cfg tr))"
proof -
  let ?Inv = "\<lambda>B l ct out tr. mset (trace_coords tr) + mset (map coords B) = mset (map coords A)
     \<and> out = render_chains label (map fst (printed cfg tr))
     \<and> ct = int (length (printed cfg tr))
     \<and> l = (if printed cfg tr = [] then label else ''#'')"
  let ?Post = "\<lambda>r. case r of (ct, out, tr) \<Rightarrow> mset (trace_coords tr) = mset (map coords A)
     \<and> out = render_chains label (map fst (printed cfg tr))
     \<and> ct = int (length (printed cfg tr))"
  have "\<exists>r. Process_Cluster_loop cfg A label 0 [] [] = Some r \<and> ?Post r"
  proof (rule Process_Cluster_loop_rule[where Inv = ?Inv])
    show "A \<noteq> []" by fact
    show "?Inv A label 0 [] []" by (simp add: trace_coords_def printed_def)
  next
    fix B l ct out tr A2 score A3 l1 ct1 out1 tr1
    assume B: "B \<noteq> []" and inv: "?Inv B l ct out tr"
      and sel: "select_chain cfg B = Some (A2, score)"
      and fin: "finish_pass cfg (length B) l ct out tr A2 score = (A3, l1, ct1, out1, tr1)"
    from select_chain_spec[OF B, of cfg] sel
    have len: "length A2 = length B" and co: "map coords A2 = map coords B" by auto
    have em: "emit_chain (length B) A2 = emit_from None (filter Good A2)"
      using emit_chain_filter[of "length B" A2] len by simp
    have part: "mset (map coords (filter Good A2)) + mset (map coords (filter (\<lambda>m. \<not> Good m) A2))
          = mset (map coords B)"
    proof -
      have "mset (filter Good A2) + mset (filter (\<lambda>m. \<not> Good m) A2) = mset A2"
        by simp
      then have "image_mset coords (mset (filter Good A2) + mset (filter (\<lambda>m. \<not> Good m) A2))
            = image_mset coords (mset A2)" by (rule arg_cong)
      then show ?thesis unfolding co[symmetric] by (simp del: mset_filter)
    qed
    have tr1: "tr1 = tr @ [(filter Good A2, score)]" and A3: "A3 = filter (\<lambda>m. \<not> Good m) A2"
      using fin by (auto simp: finish_pass_def split: if_splits)
    have "mset (trace_coords tr1) = mset (trace_coords tr) + mset (map coords (filter Good A2))"
      unfolding tr1 trace_coords_def by simp
    then have "mset (trace_coords tr1) + mset (map coords A3)
          = mset (trace_coords tr) + (mset (map coords (filter Good A2))
              + mset (map coords (filter (\<lambda>m. \<not> Good m) A2)))"
      unfolding A3 by (simp only: add.assoc)
    also have "\<dots> = mset (trace_coords tr) + mset (map coords B)"
      by (simp only: part)
    finally have m: "mset (trace_coords tr1) + mset (map coords A3) = mset (map coords A)"
      using inv by simp
    have rest: "out1 = render_chains label (map fst (printed cfg tr1))
          \<and> ct1 = int (length (printed cfg tr1))
          \<and> l1 = (if printed cfg tr1 = [] then label else ''#'')"
    proof (cases "Min_Output_Score cfg \<le> score")
      case True
      with fin have "out1 = out @ [Label l] @ emit_chain (length B) A2" "ct1 = ct + 1" "l1 = ''#''"
        by (auto simp: finish_pass_def)
      with inv True em show ?thesis
        unfolding tr1 by (simp add: printed_def render_chains_snoc)
    next
      case False
      with fin have "out1 = out" "ct1 = ct" "l1 = l"
        by (auto simp: finish_pass_def)
      with inv False show ?thesis
        unfolding tr1 by (simp add: printed_def)
    qed
    show "(A3 \<noteq> [] \<longrightarrow> ?Inv A3 l1 ct1 out1 tr1) \<and> (A3 = [] \<longrightarrow> ?Post (ct1, out1, tr1))"
      using m rest by auto
  qed
  then show ?thesis by (auto simp: Process_Cluster_trace_def)
qed

text \<open>Every pass of the loop extracts a chain with at least one match.\<close>

lemma Process_Cluster_trace_nonempty:
  assumes "A \<noteq> []"
  shows "\<exists>ct out tr. Process_Cluster_trace cfg A label = Some (ct, out, tr)
     \<and> (\<forall>c \<in> set tr. fst c \<noteq> [])"
proof -
  let ?Inv = "\<lambda>(B :: Match_t list) (l :: string) (ct :: int) (out :: out_line list)
      (tr :: chain_trace). \<forall>c \<in> set tr. fst c \<noteq> []"
  have "\<exists>r. Process_Cluster_loop cfg A label 0 [] [] = Some r
          \<and> (case r of (ct, out, tr) \<Rightarrow> \<forall>c \<in> set tr. fst c \<noteq> [])"
  proof (rule Process_Cluster_loop_rule[where Inv = ?Inv])
    show "A \<noteq> []" by fact
    show "?Inv A label 0 [] []" by simp
  next
    fix B l ct out tr A2 score A3 l1 ct1 out1 tr1
    assume B: "B \<noteq> []" and inv: "?Inv B l ct out tr"
      and sel: "select_chain cfg B = Some (A2, score)"
      and fin: "finish_pass cfg (length B) l ct out tr A2 score = (A3, l1, ct1, out1, tr1)"
    from select_chain_spec[OF B, of cfg] sel
    obtain b where "length A2 = length B" "b < length B" "Good (A2 ! b)" by auto
    then have "A2 ! b \<in> set (filter Good A2)" by simp
    then have ne: "filter Good A2 \<noteq> []" by (metis empty_iff empty_set)
    have "tr1 = tr @ [(filter Good A2, score)]"
      using fin by (auto simp: finish_pass_def split: if_splits)
    with inv ne have "\<forall>c \<in> set tr1. fst c \<noteq> []" by auto
    then show "(A3 \<noteq> [] \<longrightarrow> ?Inv A3 l1 ct1 out1 tr1)
        \<and> (A3 = [] \<longrightarrow> (case (ct1, out1, tr1) of (ct, out, tr) \<Rightarrow> \<forall>c \<in> set tr. fst c \<noteq> []))"
      by simp
  qed
  then show ?thesis by (auto simp: Process_Cluster_trace_def)
qed

lemma length_concat_nonempty:
  "\<forall>x \<in> set xs. x \<noteq> [] \<Longrightarrow> length xs \<le> length (concat xs)"
proof (induction xs)
  case Nil
  then show ?case by simp
next
  case (Cons x xs)
  then have "1 \<le> length x" by (cases x) simp_all
  with Cons show ?case by simp
qed

subsection \<open>The claims about the chain selector\<close>

text \<open>
  Claim C9: for every non-empty cluster the extraction loop of \<open>Process_Cluster\<close>
  terminates. The call returns; the trace holds the chain of every pass, the matches
  that the pass marks and removes from the working set. Every pass removes at least
  one match, and the removed matches together are the matches of the cluster: the
  working set shrinks with every pass and is empty at the end, after at most as many
  passes as the cluster has matches.
\<close>

theorem C9_extraction_terminates:
  assumes "A \<noteq> []"
  shows "\<exists>ct out tr. Process_Cluster_trace cfg A label = Some (ct, out, tr)
     \<and> Process_Cluster cfg A label = Some (ct, out)
     \<and> (\<forall>c \<in> set tr. fst c \<noteq> [])
     \<and> mset (trace_coords tr) = mset (map coords A)
     \<and> length tr \<le> length A"
proof -
  from Process_Cluster_trace_spec[OF assms, of cfg label]
  obtain ct out tr where r: "Process_Cluster_trace cfg A label = Some (ct, out, tr)"
    and m: "mset (trace_coords tr) = mset (map coords A)" by blast
  from Process_Cluster_trace_nonempty[OF assms, of cfg label] r
  have ne: "\<forall>c \<in> set tr. fst c \<noteq> []" by auto
  from m have "length (trace_coords tr) = length A"
    by (metis length_map size_mset)
  moreover have "length (map (\<lambda>c. map coords (fst c)) tr)
      \<le> length (concat (map (\<lambda>c. map coords (fst c)) tr))"
    using ne by (intro length_concat_nonempty) auto
  ultimately have "length tr \<le> length A" by (simp add: trace_coords_def)
  with r m ne show ?thesis by (simp add: Process_Cluster_def)
qed


theorem C9_extraction_terminates_witness:
  "\<exists>ct out tr. Process_Cluster_trace default_config [mk_Match 0 0 10, mk_Match 50 20 10] ''> q''
        = Some (ct, out, tr)
     \<and> Process_Cluster default_config [mk_Match 0 0 10, mk_Match 50 20 10] ''> q'' = Some (ct, out)
     \<and> list_all (\<lambda>c. fst c \<noteq> []) tr
     \<and> mset (trace_coords tr) = mset [(0, 0, 10), (50, 20, 10)]
     \<and> length tr \<le> 2"
  using C9_extraction_terminates[of "[mk_Match 0 0 10, mk_Match 50 20 10]" default_config "''> q''"]
  by (auto simp: coords_def mk_Match_def list_all_iff)

text \<open>
  Claim C2 says that every match of a cluster ends up in exactly one emitted chain.
  A chain is printed only when its score reaches \<^verbatim>\<open>Min_Output_Score\<close> (line 362).
  Counterexample: under the default configuration the cluster of the single match
  \<open>(0, 0, 10)\<close> yields one chain of score 10, below 200; the match is consumed and
  nothing is printed.
\<close>

theorem C2_consumed_not_emitted:
  "map_option (\<lambda>(ct, out, tr). (ct, out, map (\<lambda>c. (map coords (fst c), snd c)) tr))
     (Process_Cluster_trace default_config [mk_Match 0 0 10] ''> q'')
   = Some (0, [], [([(0, 0, 10)], 10)])"
  by code_simp

text \<open>
  Claim C2, amended: for every non-empty cluster the loop returns, and the chains it
  selects partition the cluster: the matches of the selected chains together are the
  matches of the cluster, each once. A selected chain is printed exactly when its
  score reaches \<^verbatim>\<open>Min_Output_Score\<close>: the output is the printed chains in order, each
  after its label, and \<^verbatim>\<open>print_ct\<close> counts them.
\<close>

theorem C2_chains_partition:
  assumes "A \<noteq> []"
  shows "\<exists>ct out tr. Process_Cluster_trace cfg A label = Some (ct, out, tr)
     \<and> mset (trace_coords tr) = mset (map coords A)
     \<and> out = render_chains label (map fst (printed cfg tr))
     \<and> ct = int (length (printed cfg tr))"
  using assms by (rule Process_Cluster_trace_spec)

theorem C2_chains_partition_witness:
  "\<exists>ct out tr. Process_Cluster_trace (default_config\<lparr>Min_Output_Score := 15\<rparr>)
        [mk_Match 0 0 10, mk_Match 8 9 10, mk_Match 500 12 10] ''> q'' = Some (ct, out, tr)
     \<and> mset (trace_coords tr) = mset [(0, 0, 10), (8, 9, 10), (500, 12, 10)]
     \<and> out = render_chains ''> q''
         (map fst (printed (default_config\<lparr>Min_Output_Score := 15\<rparr>) tr))
     \<and> ct = int (length (printed (default_config\<lparr>Min_Output_Score := 15\<rparr>) tr))"
  using C2_chains_partition[of "[mk_Match 0 0 10, mk_Match 8 9 10, mk_Match 500 12 10]"
      "default_config\<lparr>Min_Output_Score := 15\<rparr>" "''> q''"]
  by (simp add: coords_def mk_Match_def)

text \<open>
  Claim C5: in the output of \<open>Process_Cluster\<close> every two consecutive match lines, which
  are consecutive matches of one printed chain since every chain starts with a label
  line, do not overlap after adjustment, on either axis. The cluster comes with every
  \<open>Good\<close> flag clear, as the filter leaves it (lines 288--289) and as each iteration
  leaves the matches it keeps.
\<close>

theorem C5_chain_lines_apart:
  assumes "A \<noteq> []" "\<forall>m \<in> set A. \<not> Good m"
  shows "\<exists>ct out. Process_Cluster cfg A label = Some (ct, out) \<and> successively line_apart out"
proof -
  let ?Inv = "\<lambda>B (l::string) (ct::int) out (tr::chain_trace).
      successively line_apart out \<and> (\<forall>m \<in> set B. \<not> Good m)"
  have "\<exists>r. Process_Cluster_loop cfg A label 0 [] [] = Some r
          \<and> (case r of (ct, out, tr) \<Rightarrow> successively line_apart out)"
  proof (rule Process_Cluster_loop_rule[where Inv = ?Inv])
    show "A \<noteq> []" by fact
    show "?Inv A label 0 [] []" using assms(2) by simp
  next
    fix B l ct out tr A2 score A3 l1 ct1 out1 tr1
    assume B: "B \<noteq> []" and inv: "?Inv B l ct out tr"
      and sel: "select_chain cfg B = Some (A2, score)"
      and fin: "finish_pass cfg (length B) l ct out tr A2 score = (A3, l1, ct1, out1, tr1)"
    from select_chain_spec[OF B, of cfg] sel inv
    have len: "length A2 = length B" and ch: "chained A2 (- 1)"
      and lk: "\<forall>q < length A2. link_ok A2 q" by auto
    have em: "emit_chain (length B) A2 = emit_from None (filter Good A2)"
      using emit_chain_filter[of "length B" A2] len by simp
    have ap: "successively line_apart (emit_from None (filter Good A2))"
      by (intro emit_from_apart chain_linked ch lk)
    have "successively line_apart (out @ [Label l] @ emit_from None (filter Good A2))"
      using inv ap
      by (simp add: successively_append_iff successively_Cons line_apart_def
          split: out_line.splits)
    moreover have "out1 = out \<or> out1 = out @ [Label l] @ emit_from None (filter Good A2)"
      using fin em by (auto simp: finish_pass_def split: if_splits)
    moreover have "A3 = filter (\<lambda>m. \<not> Good m) A2"
      using fin by (auto simp: finish_pass_def split: if_splits)
    ultimately show "(A3 \<noteq> [] \<longrightarrow> ?Inv A3 l1 ct1 out1 tr1)
        \<and> (A3 = [] \<longrightarrow> (case (ct1, out1, tr1) of (ct, out, tr) \<Rightarrow> successively line_apart out))"
      using inv by auto
  qed
  then show ?thesis by (auto simp: Process_Cluster_def Process_Cluster_trace_def)
qed

theorem C5_chain_lines_apart_witness:
  "Process_Cluster (default_config\<lparr>Min_Output_Score := 15\<rparr>)
      [mk_Match 0 0 10, mk_Match 8 9 10] ''> q''
     = Some (1, [Label ''> q'', Match_line 0 0 10 None None,
                 Match_line 10 11 8 (Some (- 2)) (Some (0, 1))])
   \<and> successively line_apart
        [Label ''> q'', Match_line 0 0 10 None None,
         Match_line 10 11 8 (Some (- 2)) (Some (0, 1))]"
proof -
  have e: "Process_Cluster (default_config\<lparr>Min_Output_Score := 15\<rparr>)
      [mk_Match 0 0 10, mk_Match 8 9 10] ''> q''
     = Some (1, [Label ''> q'', Match_line 0 0 10 None None,
                 Match_line 10 11 8 (Some (- 2)) (Some (0, 1))])"
    by code_simp
  from C5_chain_lines_apart[of "[mk_Match 0 0 10, mk_Match 8 9 10]"
      "default_config\<lparr>Min_Output_Score := 15\<rparr>" "''> q''"] e
  show ?thesis by (simp add: mk_Match_def)
qed

section \<open>Properties of the union-find structure and the clustering\<close>

text \<open>\<open>root_in uf a n r\<close>: following the parents from \<open>a\<close> reaches the root \<open>r\<close> in \<open>n\<close> steps.\<close>

inductive root_in :: "int list \<Rightarrow> int \<Rightarrow> nat \<Rightarrow> int \<Rightarrow> bool" for uf :: "int list" where
  root: "1 \<le> a \<Longrightarrow> a < int (length uf) \<Longrightarrow> uf ! nat a < 0 \<Longrightarrow> root_in uf a 0 a"
| step: "1 \<le> a \<Longrightarrow> a < int (length uf) \<Longrightarrow> 0 < uf ! nat a \<Longrightarrow> root_in uf (uf ! nat a) n r
         \<Longrightarrow> root_in uf a (Suc n) r"

definition root_of :: "int list \<Rightarrow> int \<Rightarrow> int \<Rightarrow> bool" where
  "root_of uf a r \<longleftrightarrow> (\<exists>n. root_in uf a n r)"

definition uf_inv :: "int list \<Rightarrow> bool" where
  "uf_inv uf \<longleftrightarrow> (\<forall>a. 1 \<le> a \<and> a < int (length uf) \<longrightarrow> (\<exists>r. root_of uf a r))"



lemma root_in_cases:
  assumes "root_in uf a n r"
  shows "(uf ! nat a < 0 \<and> n = 0 \<and> r = a)
       \<or> (0 < uf ! nat a \<and> (\<exists>m. n = Suc m \<and> root_in uf (uf ! nat a) m r))"
  using assms by (cases rule: root_in.cases) auto

lemma root_in_unique:
  assumes "root_in uf a n r" "root_in uf a n' r'"
  shows "n = n' \<and> r = r'"
  using assms
proof (induction arbitrary: n' r')
  case (root a)
  from root_in_cases[OF root.prems] root.hyps show ?case by linarith
next
  case (step a n r)
  from root_in_cases[OF step.prems] step.hyps(3)
  obtain m where m: "n' = Suc m" "root_in uf (uf ! nat a) m r'" by force
  from step.IH[OF m(2)] m(1) show ?case by simp
qed

lemma root_of_unique: "root_of uf a r \<Longrightarrow> root_of uf a r' \<Longrightarrow> r = r'"
  unfolding root_of_def using root_in_unique by blast





lemma root_of_parent:
  assumes "root_of uf a r" "0 < uf ! nat a"
  shows "root_of uf (uf ! nat a) r"
proof -
  from assms(1) obtain n where n: "root_in uf a n r" by (auto simp: root_of_def)
  from root_in_cases[OF n] assms(2) show ?thesis by (auto simp: root_of_def)
qed














text \<open>Two indices are in the same set.\<close>

definition same_set :: "int list \<Rightarrow> int \<Rightarrow> int \<Rightarrow> bool" where
  "same_set uf x y \<longleftrightarrow> (\<exists>r. root_of uf x r \<and> root_of uf y r)"


lemma same_set_sym: "same_set uf x y \<Longrightarrow> same_set uf y x"
  unfolding same_set_def by blast

lemma same_set_trans: "same_set uf x y \<Longrightarrow> same_set uf y z \<Longrightarrow> same_set uf x z"
  unfolding same_set_def by (metis root_of_unique)

lemma same_set_refl: "uf_inv uf \<Longrightarrow> 1 \<le> x \<Longrightarrow> x < int (length uf) \<Longrightarrow> same_set uf x x"
  unfolding same_set_def uf_inv_def by blast




























lemma to_bitfield30_id: "- 536870912 \<le> x \<Longrightarrow> x < 536870912 \<Longrightarrow> to_bitfield30 x = x"
  by (simp add: to_bitfield30_def)


subsection \<open>The claims about the clustering\<close>






section \<open>Properties of \<^verbatim>\<open>Process_Matches\<close>\<close>

text \<open>The sort keeps the matches and puts them in the order of the comparator.\<close>

lemma set_qsort_insert [simp]: "set (qsort_insert cmp x ys) = insert x (set ys)"
  by (induction ys) auto

lemma length_qsort_insert [simp]: "length (qsort_insert cmp x ys) = Suc (length ys)"
  by (induction ys) auto

lemma mset_qsort_insert [simp]: "mset (qsort_insert cmp x ys) = add_mset x (mset ys)"
  by (induction ys) auto

lemma mset_qsort_foldl:
  "mset (foldl (\<lambda>acc x. qsort_insert cmp x acc) acc xs) = mset acc + mset xs"
  by (induction xs arbitrary: acc) auto

lemma mset_qsort [simp]: "mset (qsort cmp xs) = mset xs"
  by (simp add: qsort_def mset_qsort_foldl)

lemma length_qsort_foldl:
  "length (foldl (\<lambda>acc x. qsort_insert cmp x acc) acc xs) = length acc + length xs"
  by (induction xs arbitrary: acc) auto

lemma length_qsort [simp]: "length (qsort cmp xs) = length xs"
  by (simp add: qsort_def length_qsort_foldl)










subsection \<open>The claims about a whole query\<close>



text \<open>
  Claim C1 says that for the two matches \<open>(0, 0, 10)\<close> and \<open>(20, 20, 10)\<close> under the
  default configuration the chain of both is emitted. Its score is 20, below the default
  \<^verbatim>\<open>Min_Output_Score\<close> of 200 (line 362): the output is the label alone.
\<close>

theorem C1_chain_below_minimum_not_emitted:
  "Process_Matches default_config [mk_Match 0 0 10, mk_Match 20 20 10] ''> q''
     = Some [Label ''> q'']"
  by code_simp

text \<open>
  Claim C1, amended: for the two matches \<open>(0, 0, 10)\<close> and \<open>(20, 20, 10)\<close> under the
  default configuration the filter keeps both, the clustering puts both in one cluster
  (both receive the cluster id 2), and the selection on that cluster extracts a single
  chain with both matches and score 20. The score is below the minimum of 200, so the
  chain is not printed and the output is the label alone. With the minimum lowered to
  20 the chain is printed: the first match unadjusted, the second with the adjustment
  \<^verbatim>\<open>none\<close> (\<open>None\<close>) and the gaps 10 and 10.
\<close>

theorem C1_two_anchor_scenario:
  "Filter_Matches (qsort By_Start2 [mk_Match 0 0 10, mk_Match 20 20 10])
     = Some [mk_Match 0 0 10, mk_Match 20 20 10]
   \<and> map_option (\<lambda>r. map cluster_id (snd r))
       (cluster_matches default_config 2 [mk_Match 0 0 10, mk_Match 20 20 10]) = Some [2, 2]
   \<and> map_option (\<lambda>(ct, out, tr). (ct, out, map (\<lambda>c. (map coords (fst c), snd c)) tr))
       (Process_Cluster_trace default_config
          [(mk_Match 0 0 10)\<lparr>cluster_id := 2\<rparr>, (mk_Match 20 20 10)\<lparr>cluster_id := 2\<rparr>] ''> q'')
     = Some (0, [], [([(0, 0, 10), (20, 20, 10)], 20)])
   \<and> Process_Matches default_config [mk_Match 0 0 10, mk_Match 20 20 10] ''> q''
     = Some [Label ''> q'']
   \<and> Process_Matches (default_config\<lparr>Min_Output_Score := 20\<rparr>)
        [mk_Match 0 0 10, mk_Match 20 20 10] ''> q''
     = Some [Label ''> q'', Match_line 0 0 10 None None, Match_line 20 20 10 None (Some (10, 10))]"
proof (intro conjI)
  show "Filter_Matches (qsort By_Start2 [mk_Match 0 0 10, mk_Match 20 20 10])
     = Some [mk_Match 0 0 10, mk_Match 20 20 10]"
    by code_simp
  show "map_option (\<lambda>r. map cluster_id (snd r))
       (cluster_matches default_config 2 [mk_Match 0 0 10, mk_Match 20 20 10]) = Some [2, 2]"
    by code_simp
  show "map_option (\<lambda>(ct, out, tr). (ct, out, map (\<lambda>c. (map coords (fst c), snd c)) tr))
       (Process_Cluster_trace default_config
          [(mk_Match 0 0 10)\<lparr>cluster_id := 2\<rparr>, (mk_Match 20 20 10)\<lparr>cluster_id := 2\<rparr>] ''> q'')
     = Some (0, [], [([(0, 0, 10), (20, 20, 10)], 20)])"
    by code_simp
  show "Process_Matches default_config [mk_Match 0 0 10, mk_Match 20 20 10] ''> q''
     = Some [Label ''> q'']"
    by code_simp
  show "Process_Matches (default_config\<lparr>Min_Output_Score := 20\<rparr>)
        [mk_Match 0 0 10, mk_Match 20 20 10] ''> q''
     = Some [Label ''> q'', Match_line 0 0 10 None None, Match_line 20 20 10 None (Some (10, 10))]"
    by code_simp
qed

end
